theory Spec2Isabelle
  imports Complex_Main "HOL-Library.Char_ord" "HOL-Library.List_Lexorder"
begin

section \<open>Data model\<close>

text \<open>
  The snapshot types are declared in \<^verbatim>\<open>data_model.py\<close> and the scoring table in
  \<^verbatim>\<open>config.py\<close>; the analysis layer (\<^verbatim>\<open>scoring.py\<close>) only reads the fields listed
  here.  Python floats are modelled by exact rationals, Python integers by \<open>int\<close>,
  a \<^verbatim>\<open>dict\<close> by an association list in insertion order (each key once), a
  \<^verbatim>\<open>set\<close> by a list without repetitions, and \<^verbatim>\<open>None\<close> by \<open>option\<close>.
\<close>

datatype Gender = MEN | WOMEN

datatype RoundType = PRELIM | FINAL

datatype EventStatus = SCHEDULED | IN_PROGRESS | STATUS_FINAL

record Athlete =
  name :: string
  team :: string
  final_place :: "int option"

record EventEntry =
  athlete :: Athlete
  effective_seed :: "string option"

text \<open>
  \<open>base_event_name\<close> is a property of the event computed in \<^verbatim>\<open>data_model.py\<close>; the
  scoring layer reads it like a field, and so does the model.
\<close>

record MeetEvent =
  event_name :: string
  base_event_name :: string
  gender :: Gender
  round_type :: RoundType
  status :: EventStatus
  entries :: "EventEntry list"

text \<open>\<open>is_complete\<close> is likewise a property of the combined result, read as a field.\<close>

record CombinedEventResult =
  combined_name :: string
  combined_gender :: Gender
  athletes :: "Athlete list"
  is_complete :: bool

record MeetState =
  events :: "MeetEvent list"
  combined_events :: "CombinedEventResult list"

text \<open>
  A \<^verbatim>\<open>TeamScore\<close> as \<^verbatim>\<open>compute_actual_scores\<close> builds it: the points earned and the
  list of scoring events, each kept as the pair (event name, place) that the source
  formats into one string.
\<close>

record TeamScore =
  ts_team :: string
  ts_gender :: Gender
  actual_points :: int
  events_scored :: "(string \<times> int) list"

type_synonym scores = "(string \<times> TeamScore) list"

text \<open>\<^verbatim>\<open>TeamScore(team=team, gender=gender)\<close>: the zero-initialised record.\<close>

definition new_TeamScore :: "string \<Rightarrow> Gender \<Rightarrow> TeamScore" where
  "new_TeamScore t g = \<lparr>ts_team = t, ts_gender = g, actual_points = 0, events_scored = []\<rparr>"

text \<open>
  Modelled from the spec: the two read-only views of the snapshot, methods of
  \<^verbatim>\<open>MeetState\<close> in \<^verbatim>\<open>data_model.py\<close>.  The completed finals of a gender are its
  final-round events in FINAL status; an upcoming final is any final-round event not
  yet in FINAL status with at least one entrant.
\<close>

definition get_completed_finals :: "MeetState \<Rightarrow> Gender \<Rightarrow> MeetEvent list" where
  "get_completed_finals st g =
     filter (\<lambda>e. gender e = g \<and> round_type e = FINAL \<and> status e = STATUS_FINAL) (events st)"

definition get_upcoming_finals :: "MeetState \<Rightarrow> Gender \<Rightarrow> MeetEvent list" where
  "get_upcoming_finals st g =
     filter (\<lambda>e. gender e = g \<and> round_type e = FINAL \<and> status e \<noteq> STATUS_FINAL
                 \<and> entries e \<noteq> []) (events st)"

subsection \<open>Dictionaries\<close>

text \<open>\<^verbatim>\<open>d[k] = v\<close>: overwrite in place, or append a new key at the end.\<close>

fun dict_set :: "('k \<times> 'v) list \<Rightarrow> 'k \<Rightarrow> 'v \<Rightarrow> ('k \<times> 'v) list" where
  "dict_set [] k v = [(k, v)]"
| "dict_set ((k', v') # d) k v = (if k' = k then (k, v) # d else (k', v') # dict_set d k v)"

text \<open>\<^verbatim>\<open>d.get(k, dflt)\<close>, which is also what a \<^verbatim>\<open>defaultdict\<close> reads.\<close>

definition dict_get :: "('k \<times> 'v) list \<Rightarrow> 'k \<Rightarrow> 'v \<Rightarrow> 'v" where
  "dict_get d k dflt = (case map_of d k of None \<Rightarrow> dflt | Some v \<Rightarrow> v)"

text \<open>
  The scoring table \<^verbatim>\<open>PLACE_POINTS\<close> of \<^verbatim>\<open>config.py\<close> is a parameter of every
  function that reads it: a dictionary from place to points.
\<close>

type_synonym place_points = "(int \<times> int) list"

text \<open>
  Modelled from the spec: the contract of \<^verbatim>\<open>PLACE_POINTS\<close>, a mapping from the
  integer places 1..8 to positive integers, strictly decreasing.
\<close>

definition valid_table :: "place_points \<Rightarrow> bool" where
  "valid_table pp \<longleftrightarrow>
     distinct (map fst pp) \<and> set (map fst pp) = {1..8}
     \<and> list_all (\<lambda>(p, v). 0 < v) pp
     \<and> list_all (\<lambda>(p, v). list_all (\<lambda>(q, w). p < q \<longrightarrow> w < v) pp) pp"

text \<open>The table used in the worked examples: 10-8-6-5-4-3-2-1.\<close>

definition example_points :: place_points where
  "example_points = [(1, 10), (2, 8), (3, 6), (4, 5), (5, 4), (6, 3), (7, 2), (8, 1)]"

section \<open>Current actual score\<close>

text \<open>
  The body shared by the two loops of \<^verbatim>\<open>compute_actual_scores\<close>:
  \<^verbatim>\<open>if a.final_place and a.final_place in PLACE_POINTS\<close> credits the team, creating its
  record on first sight (\<^verbatim>\<open>_get_or_create\<close>).  A place of 0 is falsy in Python.
\<close>

definition get_or_create :: "scores \<Rightarrow> string \<Rightarrow> Gender \<Rightarrow> scores" where
  "get_or_create sc t g =
     (case map_of sc t of None \<Rightarrow> sc @ [(t, new_TeamScore t g)] | Some _ \<Rightarrow> sc)"

definition credit :: "place_points \<Rightarrow> Gender \<Rightarrow> string \<Rightarrow> Athlete \<Rightarrow> scores \<Rightarrow> scores" where
  "credit pp g evname a sc =
     (case final_place a of
        None \<Rightarrow> sc
      | Some p \<Rightarrow>
          if p \<noteq> 0 \<and> map_of pp p \<noteq> None then
            (let pts = the (map_of pp p);
                 sc' = get_or_create sc (team a) g;
                 ts = the (map_of sc' (team a))
             in dict_set sc' (team a)
                  (ts\<lparr>actual_points := actual_points ts + pts,
                      events_scored := events_scored ts @ [(evname, p)]\<rparr>))
          else sc)"

definition compute_actual_scores :: "place_points \<Rightarrow> MeetState \<Rightarrow> Gender \<Rightarrow> scores" where
  "compute_actual_scores pp st g =
     (let sc1 = fold (\<lambda>event sc.
                   fold (\<lambda>entry. credit pp g (event_name event) (athlete entry))
                     (entries event) sc)
                 (get_completed_finals st g) [];
          sc2 = fold (\<lambda>combined sc.
                   if combined_gender combined \<noteq> g \<or> \<not> is_complete combined then sc
                   else fold (credit pp g (combined_name combined)) (athletes combined) sc)
                 (combined_events st) sc1
      in sc2)"

section \<open>Optimistic ceiling\<close>

text \<open>
  \<^verbatim>\<open>all_teams\<close>: the set of the non-empty team names on any entry of any event of
  the snapshot.
\<close>

definition all_entry_teams :: "MeetState \<Rightarrow> string list" where
  "all_entry_teams st =
     fold (\<lambda>event s.
             fold (\<lambda>entry s. if team (athlete entry) \<noteq> [] then List.insert (team (athlete entry)) s
                              else s)
               (entries event) s)
       (events st) []"

text \<open>\<^verbatim>\<open>team_athletes[entry.athlete.team] += 1\<close> over the entries of one event.\<close>

definition count_team_athletes :: "EventEntry list \<Rightarrow> (string \<times> nat) list" where
  "count_team_athletes es =
     fold (\<lambda>entry ta. dict_set ta (team (athlete entry)) (dict_get ta (team (athlete entry)) 0 + 1))
       es []"

text \<open>
  The inner loop \<^verbatim>\<open>for _ in range(count)\<close>: a place is claimed, and the shared
  counter advanced, only when the place is in the table; the loop is left as soon as
  the counter exceeds 8.
\<close>

fun claim_places ::
  "place_points \<Rightarrow> string \<Rightarrow> nat \<Rightarrow> (string \<times> int) list \<times> int \<Rightarrow> (string \<times> int) list \<times> int"
where
  "claim_places pp tm 0 (c, place) = (c, place)"
| "claim_places pp tm (Suc n) (c, place) =
     (let (c', place') =
            (if map_of pp place \<noteq> None
             then (dict_set c tm (dict_get c tm 0 + the (map_of pp place)), place + 1)
             else (c, place))
      in if place' > 8 then (c', place') else claim_places pp tm n (c', place'))"

text \<open>The outer loop \<^verbatim>\<open>for team in team_list\<close>, with its own \<^verbatim>\<open>break\<close>.\<close>

fun assign_teams ::
  "place_points \<Rightarrow> (string \<times> nat) list \<Rightarrow> string list \<Rightarrow> (string \<times> int) list \<times> int
     \<Rightarrow> (string \<times> int) list \<times> int"
where
  "assign_teams pp ta [] (c, place) = (c, place)"
| "assign_teams pp ta (tm # rest) (c, place) =
     (let (c', place') = claim_places pp tm (dict_get ta tm 0) (c, place)
      in if place' > 8 then (c', place') else assign_teams pp ta rest (c', place'))"

definition ceiling_event :: "place_points \<Rightarrow> MeetEvent \<Rightarrow> (string \<times> int) list \<Rightarrow> (string \<times> int) list" where
  "ceiling_event pp event c =
     (let team_athletes = count_team_athletes (entries event);
          team_list = sort (map fst team_athletes)
      in fst (assign_teams pp team_athletes team_list (c, 1)))"

definition compute_optimistic_ceiling ::
  "place_points \<Rightarrow> scores \<Rightarrow> MeetState \<Rightarrow> Gender \<Rightarrow> (string \<times> int) list"
where
  "compute_optimistic_ceiling pp actual st g =
     (let ceilings0 =
            fold (\<lambda>tm c. dict_set c tm (actual_points (dict_get actual tm (new_TeamScore tm g))))
              (all_entry_teams st) []
      in fold (ceiling_event pp) (get_upcoming_finals st g) ceilings0)"

section \<open>Strings and marks\<close>

text \<open>
  A Python string is modelled as a list of 8-bit characters read as the code points
  0 to 255; the marks and event names of a results page are ASCII apart from the
  no-break space (code point 160), and case conversion is modelled on the ASCII
  letters.
\<close>

definition is_space :: "char \<Rightarrow> bool" where
  "is_space c \<longleftrightarrow>
     c \<in> set [CHR 0x09, CHR 0x0A, CHR 0x0B, CHR 0x0C, CHR 0x0D, CHR 0x1C, CHR 0x1D, CHR 0x1E,
              CHR 0x1F, CHR 0x20, CHR 0x85, CHR 0xA0]"

definition is_digit :: "char \<Rightarrow> bool" where
  "is_digit c \<longleftrightarrow> CHR ''0'' \<le> c \<and> c \<le> CHR ''9''"

definition is_letter :: "char \<Rightarrow> bool" where
  "is_letter c \<longleftrightarrow> (CHR ''a'' \<le> c \<and> c \<le> CHR ''z'') \<or> (CHR ''A'' \<le> c \<and> c \<le> CHR ''Z'')"

definition py_strip :: "string \<Rightarrow> string" where
  "py_strip s = rev (dropWhile is_space (rev (dropWhile is_space s)))"

definition py_upper :: "string \<Rightarrow> string" where
  "py_upper s =
     map (\<lambda>c. if CHR ''a'' \<le> c \<and> c \<le> CHR ''z'' then char_of (of_char c - 32 :: nat) else c) s"

definition py_lower :: "string \<Rightarrow> string" where
  "py_lower s =
     map (\<lambda>c. if CHR ''A'' \<le> c \<and> c \<le> CHR ''Z'' then char_of (of_char c + 32 :: nat) else c) s"

text \<open>
  \<^verbatim>\<open>s.replace(old, new)\<close> for a non-empty \<^verbatim>\<open>old\<close>: the occurrences are replaced
  from the left, without overlap.
\<close>

fun py_replace :: "string \<Rightarrow> string \<Rightarrow> string \<Rightarrow> string" where
  "py_replace old new [] = []"
| "py_replace old new (c # cs) =
     (if old \<noteq> [] \<and> take (length old) (c # cs) = old
      then new @ py_replace old new (drop (length old - 1) cs)
      else c # py_replace old new cs)"

text \<open>\<^verbatim>\<open>k in name\<close> on strings.\<close>

fun contains :: "string \<Rightarrow> string \<Rightarrow> bool" where
  "contains k [] \<longleftrightarrow> k = []"
| "contains k (c # cs) \<longleftrightarrow> take (length k) (c # cs) = k \<or> contains k cs"

text \<open>\<^verbatim>\<open>s.split(sep)\<close> for a separator of one character.\<close>

fun split_on :: "char \<Rightarrow> string \<Rightarrow> string list" where
  "split_on sep [] = [[]]"
| "split_on sep (c # cs) =
     (if c = sep then [] # split_on sep cs
      else (case split_on sep cs of [] \<Rightarrow> [[c]] | p # ps \<Rightarrow> (c # p) # ps))"

text \<open>\<^verbatim>\<open>parts[i]\<close>, with the \<^verbatim>\<open>IndexError\<close> as \<open>None\<close>.\<close>

fun index_opt :: "'a list \<Rightarrow> nat \<Rightarrow> 'a option" where
  "index_opt [] i = None"
| "index_opt (x # xs) 0 = Some x"
| "index_opt (x # xs) (Suc i) = index_opt xs i"

subsection \<open>The builtin float\<close>

text \<open>
  \<^verbatim>\<open>float(s)\<close> on the decimal literals of Python's grammar: surrounding whitespace,
  an optional sign, digits (single underscores between digits allowed) with an
  optional fraction, and an optional exponent.  The value is the exact rational;
  \<open>None\<close> stands for \<^verbatim>\<open>ValueError\<close>.  The literals \<^verbatim>\<open>inf\<close>, \<^verbatim>\<open>infinity\<close> and \<^verbatim>\<open>nan\<close>
  have no rational value and are rejected here too.
\<close>

text \<open>A digit part: a digit, then digits each optionally preceded by one underscore.\<close>

fun digitpart_tail :: "string \<Rightarrow> bool" where
  "digitpart_tail [] \<longleftrightarrow> True"
| "digitpart_tail [c] \<longleftrightarrow> is_digit c"
| "digitpart_tail (c # d # cs) \<longleftrightarrow>
     (if c = CHR ''_'' then is_digit d \<and> digitpart_tail cs
      else is_digit c \<and> digitpart_tail (d # cs))"

definition is_digitpart :: "string \<Rightarrow> bool" where
  "is_digitpart s \<longleftrightarrow> (case s of [] \<Rightarrow> False | c # cs \<Rightarrow> is_digit c \<and> digitpart_tail cs)"

definition digits_of :: "string \<Rightarrow> string" where
  "digits_of s = filter is_digit s"

definition digits_value :: "string \<Rightarrow> nat" where
  "digits_value ds = foldl (\<lambda>n c. 10 * n + (of_char c - 48)) 0 ds"

definition strip_sign :: "string \<Rightarrow> bool \<times> string" where
  "strip_sign s =
     (case s of
        [] \<Rightarrow> (False, [])
      | c # cs \<Rightarrow> if c = CHR ''-'' then (True, cs)
                 else if c = CHR ''+'' then (False, cs) else (False, s))"

text \<open>The mantissa \<^verbatim>\<open>[digitpart] "." digitpart | digitpart ["."]\<close>.\<close>

definition parse_mantissa :: "string \<Rightarrow> rat option" where
  "parse_mantissa s =
     (let ip = takeWhile (\<lambda>c. c \<noteq> CHR ''.'') s;
          r = dropWhile (\<lambda>c. c \<noteq> CHR ''.'') s
      in case r of
           [] \<Rightarrow> if is_digitpart ip then Some (of_nat (digits_value (digits_of ip))) else None
         | _ # fp \<Rightarrow>
             if (ip = [] \<or> is_digitpart ip) \<and> (fp = [] \<or> is_digitpart fp) \<and> \<not> (ip = [] \<and> fp = [])
             then Some (of_nat (digits_value (digits_of ip))
                        + of_nat (digits_value (digits_of fp)) / 10 ^ length (digits_of fp))
             else None)"

text \<open>The exponent \<^verbatim>\<open>("e" | "E") [sign] digitpart\<close>, as a factor.\<close>

definition parse_exponent :: "string \<Rightarrow> rat option" where
  "parse_exponent s =
     (let (neg, ds) = strip_sign s
      in if is_digitpart ds
         then Some (if neg then 1 / 10 ^ digits_value (digits_of ds)
                    else 10 ^ digits_value (digits_of ds))
         else None)"

definition py_float :: "string \<Rightarrow> rat option" where
  "py_float s =
     (let (neg, body) = strip_sign (py_strip s);
          is_e = (\<lambda>c. c = CHR ''e'' \<or> c = CHR ''E'');
          m = takeWhile (\<lambda>c. \<not> is_e c) body;
          r = dropWhile (\<lambda>c. \<not> is_e c) body;
          factor = (case r of [] \<Rightarrow> Some 1 | _ # ex \<Rightarrow> parse_exponent ex)
      in case (parse_mantissa m, factor) of
           (Some v, Some f) \<Rightarrow> Some ((if neg then - v else v) * f)
         | _ \<Rightarrow> None)"

subsection \<open>Marks\<close>

text \<open>\<^verbatim>\<open>mark.strip().replace("\xa0", "").replace("  ", " ")\<close>\<close>

definition normalize_mark :: "string \<Rightarrow> string" where
  "normalize_mark mark = py_replace ''  '' '' '' (py_replace [CHR 0xA0] [] (py_strip mark))"

text \<open>
  \<^verbatim>\<open>re.sub(r"\s*\(.*\)", "", mark)\<close>.  A match at the start of a string takes the
  whitespace there, an opening parenthesis, and everything up to the last closing
  parenthesis before the next line feed (the dot does not match a line feed);
  \<open>paren_match\<close> returns what follows the match.  The substitution deletes the
  leftmost match and goes on behind it.
\<close>

definition paren_match :: "string \<Rightarrow> string option" where
  "paren_match s =
     (case dropWhile is_space s of
        [] \<Rightarrow> None
      | c # r \<Rightarrow>
          if c \<noteq> CHR ''(''  then None
          else (let line = takeWhile (\<lambda>c. c \<noteq> CHR 0x0A) r
                in if CHR '')'' \<in> set line
                   then Some (rev (takeWhile (\<lambda>c. c \<noteq> CHR '')'') (rev line))
                              @ dropWhile (\<lambda>c. c \<noteq> CHR 0x0A) r)
                   else None))"

lemma paren_match_shorter: "paren_match s = Some r \<Longrightarrow> length r < length s"
proof -
  assume a: "paren_match s = Some r"
  obtain c t where ct: "dropWhile is_space s = c # t"
    using a by (cases "dropWhile is_space s") (auto simp: paren_match_def)
  let ?line = "takeWhile (\<lambda>c. c \<noteq> CHR 0x0A) t"
  from a ct have r: "r = rev (takeWhile (\<lambda>c. c \<noteq> CHR '')'') (rev ?line))
                        @ dropWhile (\<lambda>c. c \<noteq> CHR 0x0A) t"
    by (auto simp: paren_match_def Let_def split: if_splits)
  have "length (takeWhile (\<lambda>c. c \<noteq> CHR '')'') (rev ?line)) \<le> length ?line"
    using length_takeWhile_le [of "\<lambda>c. c \<noteq> CHR '')''" "rev ?line"] by simp
  moreover have "length ?line + length (dropWhile (\<lambda>c. c \<noteq> CHR 0x0A) t) = length t"
    using takeWhile_dropWhile_id [of "\<lambda>c. c \<noteq> CHR 0x0A" t]
    by (metis length_append)
  ultimately have "length r \<le> length t" using r by simp
  moreover have "length (c # t) \<le> length s"
    using ct length_dropWhile_le [of is_space s] by simp
  ultimately show ?thesis by simp
qed

function sub_parens :: "string \<Rightarrow> string" where
  "sub_parens [] = []"
| "sub_parens (c # cs) =
     (case paren_match (c # cs) of
        Some r \<Rightarrow> sub_parens r
      | None \<Rightarrow> c # sub_parens cs)"
  by pat_completeness auto
termination
  by (relation "measure length") (auto dest: paren_match_shorter)

text \<open>
  \<^verbatim>\<open>re.sub(r"[a-zA-Z]$", "", mark)\<close>: the dollar matches at the end of the string and
  before a line feed that ends it.
\<close>

definition sub_trailing_letter :: "string \<Rightarrow> string" where
  "sub_trailing_letter s =
     (case rev s of
        [] \<Rightarrow> s
      | c # r \<Rightarrow>
          if is_letter c then rev r
          else if c = CHR 0x0A then
            (case r of [] \<Rightarrow> s | d # r' \<Rightarrow> if is_letter d then rev r' @ [c] else s)
          else s)"

text \<open>\<^verbatim>\<open>re.match(r"^\d+-\d+", mark)\<close>\<close>

definition feet_inches_match :: "string \<Rightarrow> bool" where
  "feet_inches_match s \<longleftrightarrow>
     takeWhile is_digit s \<noteq> []
     \<and> (case dropWhile is_digit s of
           c # d # _ \<Rightarrow> c = CHR ''-'' \<and> is_digit d
         | _ \<Rightarrow> False)"

text \<open>
  \<^verbatim>\<open>_mark_to_seconds\<close>.  Both \<^verbatim>\<open>try\<close> blocks return \<^verbatim>\<open>None\<close> on any exception, so
  a part that is missing or does not parse gives \<open>None\<close>.
\<close>

definition two_floats :: "string list \<Rightarrow> (rat \<times> rat) option" where
  "two_floats parts =
     (case (index_opt parts 0, index_opt parts 1) of
        (Some a, Some b) \<Rightarrow>
          (case (py_float a, py_float b) of (Some x, Some y) \<Rightarrow> Some (x, y) | _ \<Rightarrow> None)
      | _ \<Rightarrow> None)"

definition mark_to_seconds :: "string \<Rightarrow> rat option" where
  "mark_to_seconds mark0 =
     (let mark = py_upper (normalize_mark mark0)
      in if mark \<in> set [''DNS'', ''DNF'', ''DQ'', ''NH'', ''NM'', ''FOUL'', []] then None
         else
           (let mark = sub_parens mark;
                mark = py_strip (sub_trailing_letter mark)
            in if feet_inches_match mark then
                 (case two_floats (split_on CHR ''-'' mark) of
                    Some (feet, inches) \<Rightarrow> Some (- (feet * 12 + inches))
                  | None \<Rightarrow> None)
               else if CHR '':'' \<in> set mark then
                 (case two_floats (split_on CHR '':'' mark) of
                    Some (minutes, seconds) \<Rightarrow> Some (minutes * 60 + seconds)
                  | None \<Rightarrow> None)
               else py_float mark))"

section \<open>Seed ordering\<close>

definition field_keywords :: "string list" where
  "field_keywords =
     [''jump'', ''vault'', ''throw'', ''shot'', ''weight'', ''discus'', ''javelin'', ''hammer'']"

text \<open>\<^verbatim>\<open>_seed_sort_key\<close>; \<^verbatim>\<open>entry.effective_seed or ""\<close> reads an absent seed as empty.\<close>

definition seed_sort_key :: "EventEntry \<Rightarrow> MeetEvent \<Rightarrow> rat" where
  "seed_sort_key entry event =
     (let mark = (case effective_seed entry of None \<Rightarrow> [] | Some m \<Rightarrow> m)
      in case mark_to_seconds mark of
           None \<Rightarrow> 1000000000
         | Some val \<Rightarrow>
             (let nm = py_lower (base_event_name event)
              in if list_ex (\<lambda>k. contains k nm) field_keywords then - val else val))"

text \<open>
  \<^verbatim>\<open>_rank_entries_by_seed\<close>: the named entries, by Python's stable \<^verbatim>\<open>sorted\<close> on the
  key, which \<open>sort_key\<close> (a stable insertion sort) computes.
\<close>

definition rank_entries_by_seed :: "MeetEvent \<Rightarrow> EventEntry list" where
  "rank_entries_by_seed event =
     sort_key (\<lambda>e. seed_sort_key e event) (filter (\<lambda>e. name (athlete e) \<noteq> []) (entries event))"

section \<open>Seed-based projection\<close>

text \<open>
  The loop of \<^verbatim>\<open>compute_seed_projection\<close> over the ranked entries of one event.  The
  source walks the list with the indices \<^verbatim>\<open>i\<close> and \<^verbatim>\<open>j\<close>; the model keeps the
  entries from \<^verbatim>\<open>i\<close> on.  The block \<^verbatim>\<open>ranked[i:j]\<close> is the first entry and the
  entries after it whose key is within 0.001 of the key of the first.
\<close>

function project_blocks ::
  "place_points \<Rightarrow> (EventEntry \<Rightarrow> rat) \<Rightarrow> EventEntry list \<Rightarrow> int \<Rightarrow> (string \<times> rat) list
     \<Rightarrow> (string \<times> rat) list"
where
  "project_blocks pp key [] place proj = proj"
| "project_blocks pp key (e # es) place proj =
     (if place > 8 then proj
      else
        (let current_key = key e;
             tied = e # takeWhile (\<lambda>x. \<bar>key x - current_key\<bar> < 1 / 1000) es;
             tied_count = int (length tied);
             tied_places = [place .. min (place + tied_count) 9 - 1];
             avg_pts =
               (if tied_places \<noteq> []
                then of_int (sum_list (map (\<lambda>p. dict_get pp p 0) tied_places))
                       / of_int (int (length tied_places))
                else 0);
             proj' =
               fold (\<lambda>entry pr.
                       if list_ex (\<lambda>p. dict_get pp p 0 > 0) tied_places
                       then dict_set pr (team (athlete entry))
                              (dict_get pr (team (athlete entry)) 0 + avg_pts)
                       else pr)
                 tied proj
         in project_blocks pp key (dropWhile (\<lambda>x. \<bar>key x - current_key\<bar> < 1 / 1000) es)
              (place + tied_count) proj'))"
  by pat_completeness auto
termination
  by (relation "measure (\<lambda>(pp, key, es, place, proj). length es)")
     (auto simp: length_dropWhile_le less_Suc_eq_le)

definition compute_seed_projection ::
  "place_points \<Rightarrow> scores \<Rightarrow> MeetState \<Rightarrow> Gender \<Rightarrow> (string \<times> rat) list"
where
  "compute_seed_projection pp actual st g =
     (let projections0 =
            fold (\<lambda>(tm, ts) pr. dict_set pr tm (of_int (actual_points ts))) actual []
      in fold (\<lambda>event pr.
                 project_blocks pp (\<lambda>e. seed_sort_key e event) (rank_entries_by_seed event) 1 pr)
           (get_upcoming_finals st g) projections0)"

section \<open>Monte Carlo win probability\<close>

text \<open>
  The faults a run of the simulator could raise are values: a division by zero, the
  maximum of an empty sequence, a pop outside the list.
\<close>

datatype py_error = ZeroDivisionError | ValueError | IndexError

definition py_div :: "rat \<Rightarrow> rat \<Rightarrow> py_error + rat" where
  "py_div a b = (if b = 0 then Inl ZeroDivisionError else Inr (a / b))"

definition py_max :: "int list \<Rightarrow> py_error + int" where
  "py_max xs = (case xs of [] \<Rightarrow> Inl ValueError | x # r \<Rightarrow> Inr (fold max r x))"

definition py_pop :: "'a list \<Rightarrow> nat \<Rightarrow> py_error + ('a \<times> 'a list)" where
  "py_pop xs i = (if i < length xs then Inr (xs ! i, take i xs @ drop (Suc i) xs)
                  else Inl IndexError)"

text \<open>A comprehension whose elements may fault: the first fault is the result.\<close>

fun collect :: "(py_error + 'a) list \<Rightarrow> py_error + 'a list" where
  "collect [] = Inr []"
| "collect (x # xs) =
     (case x of
        Inl e \<Rightarrow> Inl e
      | Inr v \<Rightarrow> (case collect xs of Inl e \<Rightarrow> Inl e | Inr vs \<Rightarrow> Inr (v # vs)))"

definition get_top_seed_win_prob :: "MeetEvent \<Rightarrow> rat" where
  "get_top_seed_win_prob event =
     (let nm = py_lower (base_event_name event)
      in if contains ''60m'' nm \<and> \<not> contains ''hurdle'' nm then 42 / 100
         else if contains ''200m'' nm then 40 / 100
         else if contains ''400m'' nm then 38 / 100
         else if contains ''hurdle'' nm then 45 / 100
         else if contains ''800m'' nm then 30 / 100
         else if contains ''mile'' nm \<or> contains ''1000m'' nm then 30 / 100
         else if contains ''3000m'' nm \<or> contains ''5000m'' nm then 35 / 100
         else if contains ''relay'' nm then 40 / 100
         else 40 / 100)"

definition seed_rank_to_strength :: "int \<Rightarrow> int \<Rightarrow> rat \<Rightarrow> rat" where
  "seed_rank_to_strength rank n_athletes top_seed_prob =
     (if n_athletes \<le> 1 then 1
      else (let decay = 65 / 100
            in if 1 \<le> rank then decay ^ nat (rank - 1) else 1 / decay ^ nat (1 - rank)))"

text \<open>The body of the loop that precomputes \<^verbatim>\<open>event_data\<close>.\<close>

definition event_data_of :: "MeetEvent \<Rightarrow> py_error + (MeetEvent \<times> EventEntry list \<times> rat list)" where
  "event_data_of event =
     (let ranked = rank_entries_by_seed event;
          n = int (length ranked);
          top_prob = get_top_seed_win_prob event;
          strengths = map (\<lambda>i. seed_rank_to_strength (int i + 1) n top_prob) [0 ..< length ranked];
          total_strength = sum_list strengths
      in case collect (map (\<lambda>s. py_div s total_strength) strengths) of
           Inl e \<Rightarrow> Inl e
         | Inr probs \<Rightarrow> Inr (event, ranked, probs))"

text \<open>
  The random source is a sequence of draws \<open>rs\<close> and the number \<open>k\<close> of draws made so
  far: \<^verbatim>\<open>random.random()\<close> returns \<open>rs k\<close> and advances \<open>k\<close>.
\<close>

text \<open>
  The walk along the cumulative probabilities; \<^verbatim>\<open>chosen_idx\<close> stays 0 when no
  entry is reached.
\<close>

fun choose_index :: "rat \<Rightarrow> rat \<Rightarrow> nat \<Rightarrow> (EventEntry \<times> rat) list \<Rightarrow> nat" where
  "choose_index r cumulative idx [] = 0"
| "choose_index r cumulative idx ((entry, p) # rest) =
     (if r \<le> cumulative + p then idx else choose_index r (cumulative + p) (Suc idx) rest)"

text \<open>
  The points of a place go to the team of the entry drawn for it, when the place
  scores: \<^verbatim>\<open>pts = PLACE_POINTS.get(place, 0)\<close> and the update under \<^verbatim>\<open>if pts > 0\<close>.
\<close>

definition award :: "place_points \<Rightarrow> int \<Rightarrow> EventEntry \<Rightarrow> (string \<times> int) list \<Rightarrow> (string \<times> int) list" where
  "award pp place winner_entry sim =
     (let pts = dict_get pp place 0;
          tm = team (athlete winner_entry)
      in if pts > 0 then dict_set sim tm (dict_get sim tm 0 + pts) else sim)"

text \<open>The loop \<^verbatim>\<open>while remaining_entries and place <= 8\<close> of one event.\<close>

function place_loop ::
  "place_points \<Rightarrow> (nat \<Rightarrow> rat) \<Rightarrow> (EventEntry \<times> rat) list \<Rightarrow> int \<Rightarrow> (string \<times> int) list \<times> nat
     \<Rightarrow> py_error + ((string \<times> int) list \<times> nat)"
where
  "place_loop pp rs remaining place (sim, k) =
     (if remaining = [] \<or> place > 8 then Inr (sim, k)
      else
        (let total = sum_list (map snd remaining)
         in if total \<le> 0 then Inr (sim, k)
            else
              (let r = rs k * total;
                   chosen_idx = choose_index r 0 0 remaining
               in case py_pop remaining chosen_idx of
                    Inl e \<Rightarrow> Inl e
                  | Inr (winner, rest) \<Rightarrow>
                      place_loop pp rs rest (place + 1) (award pp place (fst winner) sim, Suc k))))"
  by pat_completeness auto
termination
  by (relation "measure (\<lambda>(pp, rs, remaining, place, s). nat (9 - place))") auto

text \<open>The loop over \<^verbatim>\<open>event_data\<close> within one trial.\<close>

fun simulate_events ::
  "place_points \<Rightarrow> (nat \<Rightarrow> rat) \<Rightarrow> (MeetEvent \<times> EventEntry list \<times> rat list) list
     \<Rightarrow> (string \<times> int) list \<times> nat \<Rightarrow> py_error + ((string \<times> int) list \<times> nat)"
where
  "simulate_events pp rs [] s = Inr s"
| "simulate_events pp rs ((event, ranked, probs) # eds) s =
     (case place_loop pp rs (zip ranked probs) 1 s of
        Inl e \<Rightarrow> Inl e
      | Inr s' \<Rightarrow> simulate_events pp rs eds s')"

text \<open>\<^verbatim>\<open>for t in leaders: win_counts[t] += 1.0 / len(leaders)\<close>\<close>

fun credit_leaders :: "string list \<Rightarrow> nat \<Rightarrow> (string \<times> rat) list \<Rightarrow> py_error + (string \<times> rat) list" where
  "credit_leaders [] n wc = Inr wc"
| "credit_leaders (t # ts) n wc =
     (case py_div 1 (of_nat n) of
        Inl e \<Rightarrow> Inl e
      | Inr share \<Rightarrow> credit_leaders ts n (dict_set wc t (dict_get wc t 0 + share)))"

text \<open>One trial: the body of \<^verbatim>\<open>for _ in range(n_iterations)\<close>.\<close>

definition run_trial ::
  "place_points \<Rightarrow> (nat \<Rightarrow> rat) \<Rightarrow> scores \<Rightarrow> Gender \<Rightarrow> string list
     \<Rightarrow> (MeetEvent \<times> EventEntry list \<times> rat list) list
     \<Rightarrow> (string \<times> rat) list \<times> nat \<Rightarrow> py_error + ((string \<times> rat) list \<times> nat)"
where
  "run_trial pp rs actual g all_teams event_data s =
     (let sim_scores =
            map (\<lambda>t. (t, actual_points (dict_get actual t (new_TeamScore t g)))) all_teams
      in case simulate_events pp rs event_data (sim_scores, snd s) of
           Inl e \<Rightarrow> Inl e
         | Inr (sim, k) \<Rightarrow>
             (case (if sim \<noteq> [] then py_max (map snd sim) else Inr 0) of
                Inl e \<Rightarrow> Inl e
              | Inr max_score \<Rightarrow>
                  (let leaders = map fst (filter (\<lambda>(t, sc). sc = max_score) sim)
                   in case credit_leaders leaders (length leaders) (fst s) of
                        Inl e \<Rightarrow> Inl e
                      | Inr wc \<Rightarrow> Inr (wc, k))))"

fun run_trials ::
  "place_points \<Rightarrow> (nat \<Rightarrow> rat) \<Rightarrow> scores \<Rightarrow> Gender \<Rightarrow> string list
     \<Rightarrow> (MeetEvent \<times> EventEntry list \<times> rat list) list
     \<Rightarrow> nat \<Rightarrow> (string \<times> rat) list \<times> nat \<Rightarrow> py_error + ((string \<times> rat) list \<times> nat)"
where
  "run_trials pp rs actual g all_teams event_data 0 s = Inr s"
| "run_trials pp rs actual g all_teams event_data (Suc n) s =
     (case run_trial pp rs actual g all_teams event_data s of
        Inl e \<Rightarrow> Inl e
      | Inr s' \<Rightarrow> run_trials pp rs actual g all_teams event_data n s')"

text \<open>The branch taken when no upcoming final has entries.\<close>

definition current_leaders :: "scores \<Rightarrow> py_error + (string \<times> rat) list" where
  "current_leaders actual =
     (if actual = [] then Inr []
      else
        (case py_max (map (\<lambda>(t, ts). actual_points ts) actual) of
           Inl e \<Rightarrow> Inl e
         | Inr max_pts \<Rightarrow>
             (let winners = map fst (filter (\<lambda>(t, ts). actual_points ts = max_pts) actual)
              in collect (map (\<lambda>(t, ts).
                                 if t \<in> set winners
                                 then (case py_div 1 (of_nat (length winners)) of
                                         Inl e \<Rightarrow> Inl e
                                       | Inr p \<Rightarrow> Inr (t, p))
                                 else Inr (t, 0))
                            actual))))"

text \<open>\<^verbatim>\<open>all_teams\<close>: the keys of \<^verbatim>\<open>actual\<close> and the teams of the ranked entries.\<close>

definition simulation_teams ::
  "scores \<Rightarrow> (MeetEvent \<times> EventEntry list \<times> rat list) list \<Rightarrow> string list"
where
  "simulation_teams actual event_data =
     fold (\<lambda>ed s. fold (\<lambda>entry s. List.insert (team (athlete entry)) s) (fst (snd ed)) s)
       event_data (fold List.insert (map fst actual) [])"

text \<open>The last two lines: the credits divided by their total, for the teams with credit.\<close>

definition normalise_credit :: "string list \<Rightarrow> (string \<times> rat) list \<Rightarrow> py_error + (string \<times> rat) list" where
  "normalise_credit all_teams win_counts =
     (let total = sum_list (map snd win_counts)
      in collect (map (\<lambda>t. case py_div (dict_get win_counts t 0) total of
                              Inl e \<Rightarrow> Inl e
                            | Inr p \<Rightarrow> Inr (t, p))
                    (filter (\<lambda>t. dict_get win_counts t 0 > 0) all_teams)))"

text \<open>The credits accumulated by the trials, before the normalisation.\<close>

definition accumulated_credit ::
  "place_points \<Rightarrow> scores \<Rightarrow> Gender \<Rightarrow> (MeetEvent \<times> EventEntry list \<times> rat list) list
     \<Rightarrow> int \<Rightarrow> (nat \<Rightarrow> rat) \<Rightarrow> py_error + ((string \<times> rat) list \<times> nat)"
where
  "accumulated_credit pp actual g event_data n_iterations rs =
     run_trials pp rs actual g (simulation_teams actual event_data) event_data
       (nat n_iterations) ([], 0)"

text \<open>\<^verbatim>\<open>upcoming = [e for e in state.get_upcoming_finals(gender) if e.entries]\<close>\<close>

definition upcoming_with_entries :: "MeetState \<Rightarrow> Gender \<Rightarrow> MeetEvent list" where
  "upcoming_with_entries st g = filter (\<lambda>e. entries e \<noteq> []) (get_upcoming_finals st g)"

definition compute_win_probability ::
  "place_points \<Rightarrow> scores \<Rightarrow> MeetState \<Rightarrow> Gender \<Rightarrow> int \<Rightarrow> (nat \<Rightarrow> rat)
     \<Rightarrow> py_error + (string \<times> rat) list"
where
  "compute_win_probability pp actual st g n_iterations rs =
     (let upcoming = upcoming_with_entries st g
      in if upcoming = [] then current_leaders actual
         else
           (case collect (map event_data_of upcoming) of
              Inl e \<Rightarrow> Inl e
            | Inr event_data \<Rightarrow>
                (case accumulated_credit pp actual g event_data n_iterations rs of
                   Inl e \<Rightarrow> Inl e
                 | Inr (win_counts, k) \<Rightarrow>
                     normalise_credit (simulation_teams actual event_data) win_counts)))"

section \<open>Scenario builder\<close>

text \<open>
  \<^verbatim>\<open>compute_team_scenarios\<close> looks entries up by object identity (\<^verbatim>\<open>id(e)\<close>).  Every
  slot of \<^verbatim>\<open>event.entries\<close> holds an object of its own, so the identity of an entry is
  its position in that list: \<open>enumerate 0 (entries event)\<close> pairs each entry with it.
\<close>

text \<open>\<^verbatim>\<open>_rank_entries_by_seed\<close> on the entries with their identities.\<close>

definition ranked_ids :: "MeetEvent \<Rightarrow> (nat \<times> EventEntry) list" where
  "ranked_ids event =
     sort_key (\<lambda>(ident, e). seed_sort_key e event)
       (filter (\<lambda>(ident, e). name (athlete e) \<noteq> []) (enumerate 0 (entries event)))"

text \<open>\<^verbatim>\<open>rank_map = {id(e): i + 1 for i, e in enumerate(ranked)}\<close>\<close>

definition rank_map :: "MeetEvent \<Rightarrow> (nat \<times> int) list" where
  "rank_map event = map (\<lambda>(i, (ident, e)). (ident, int i + 1)) (enumerate 0 (ranked_ids event))"

record BreakdownRow =
  row_event :: string
  row_athletes :: "(string \<times> string \<times> int \<times> int) list"
  scenario_a_pts :: int
  scenario_b_pts :: int
  scenario_c_pts :: int

record TeamScenarios =
  scenario_team :: string
  current :: int
  scenario_a :: int
  scenario_b :: int
  scenario_c :: int
  breakdown :: "BreakdownRow list"

text \<open>
  The body of the loop over the upcoming finals; \<open>None\<close> is the \<^verbatim>\<open>continue\<close> taken
  when the team has no entry in the event.
\<close>

definition event_scenarios :: "place_points \<Rightarrow> string \<Rightarrow> MeetEvent \<Rightarrow> BreakdownRow option" where
  "event_scenarios pp tm event =
     (let team_entries = filter (\<lambda>(ident, e). team (athlete e) = tm) (enumerate 0 (entries event))
      in if team_entries = [] then None
         else
           (let rm = rank_map event;
                entry_details =
                  map (\<lambda>(ident, e).
                         (let proj_place = dict_get rm ident 9;
                              pts = dict_get pp proj_place 0
                          in (name (athlete e),
                              (case effective_seed e of
                                 None \<Rightarrow> ''N/A''
                               | Some m \<Rightarrow> if m = [] then ''N/A'' else m),
                              proj_place, pts)))
                    team_entries;
                a_pts = sum_list (map (\<lambda>(n, m, proj_place, pts). pts) entry_details);
                occupied =
                  map (\<lambda>(ident, e). dict_get rm ident 9)
                    (filter (\<lambda>(ident, e). team (athlete e) \<noteq> tm) (ranked_ids event));
                available_places = sort (filter (\<lambda>p. p \<notin> set occupied) [1 .. 8]);
                b_pts =
                  sum_list (map (\<lambda>(i, entry).
                                   if i < length available_places
                                   then dict_get pp (available_places ! i) 0 else 0)
                              (enumerate 0 team_entries));
                c_pts = 0
            in Some \<lparr>row_event = event_name event, row_athletes = entry_details,
                      scenario_a_pts = a_pts, scenario_b_pts = b_pts, scenario_c_pts = c_pts\<rparr>))"

definition compute_team_scenarios ::
  "place_points \<Rightarrow> string \<Rightarrow> scores \<Rightarrow> MeetState \<Rightarrow> Gender \<Rightarrow> TeamScenarios"
where
  "compute_team_scenarios pp tm actual st g =
     (let base_pts = actual_points (dict_get actual tm (new_TeamScore tm g));
          (a, b, c, rows) =
            fold (\<lambda>event (a, b, c, rows).
                    case event_scenarios pp tm event of
                      None \<Rightarrow> (a, b, c, rows)
                    | Some row \<Rightarrow>
                        (a + scenario_a_pts row, b + scenario_b_pts row, c + scenario_c_pts row,
                         rows @ [row]))
              (get_upcoming_finals st g) (base_pts, base_pts, base_pts, [])
      in \<lparr>scenario_team = tm, current = base_pts, scenario_a = a, scenario_b = b,
          scenario_c = c, breakdown = rows\<rparr>)"

section \<open>Projection and orchestrator over floats\<close>







subsection \<open>Analysis orchestrator\<close>





subsection \<open>Exact arithmetic\<close>



subsection \<open>The projected totals as sums of block averages\<close>






section \<open>Properties of the dictionaries\<close>

lemma map_of_dict_set: "map_of (dict_set d k v) = (map_of d)(k \<mapsto> v)"
  by (induction d) (auto simp: fun_upd_twist)

lemma keys_dict_set: "fst ` set (dict_set d k v) = insert k (fst ` set d)"
  by (simp add: dom_map_of_conv_image_fst[symmetric] map_of_dict_set)

section \<open>The score tabulator credits exactly the places of the table\<close>

text \<open>
  The statement of the tabulator in the words of the specification: the athletes
  whose final places count are those of the completed finals of the gender and
  those of its complete combined events; an athlete is worth the table's points
  for the final place when the place is set and in the table, and nothing
  otherwise.
\<close>

definition scoring_athletes :: "MeetState \<Rightarrow> Gender \<Rightarrow> Athlete list" where
  "scoring_athletes st g =
     concat (map (\<lambda>e. map athlete (entries e)) (get_completed_finals st g))
     @ concat (map athletes
         (filter (\<lambda>c. combined_gender c = g \<and> is_complete c) (combined_events st)))"

definition place_value :: "place_points \<Rightarrow> Athlete \<Rightarrow> int" where
  "place_value pp a =
     (case final_place a of None \<Rightarrow> 0
      | Some p \<Rightarrow> (case map_of pp p of None \<Rightarrow> 0 | Some v \<Rightarrow> v))"

definition team_points :: "scores \<Rightarrow> string \<Rightarrow> int" where
  "team_points sc t = (case map_of sc t of None \<Rightarrow> 0 | Some ts \<Rightarrow> actual_points ts)"

lemma map_of_get_or_create:
  "map_of (get_or_create sc t g) = (case map_of sc t of None \<Rightarrow> (map_of sc)(t \<mapsto> new_TeamScore t g) | Some _ \<Rightarrow> map_of sc)"
  by (auto simp: get_or_create_def map_add_def fun_eq_iff split: option.splits)

lemma team_points_credit:
  assumes "map_of pp 0 = None"
  shows "team_points (credit pp g n a sc) t
         = team_points sc t + (if team a = t then place_value pp a else 0)"
  using assms
  by (auto simp: team_points_def credit_def place_value_def Let_def map_of_dict_set
      map_of_get_or_create new_TeamScore_def split: option.splits)

lemma team_points_fold_credit:
  assumes "map_of pp 0 = None"
  shows "team_points (fold (credit pp g n) as sc) t
         = team_points sc t + (\<Sum>a\<leftarrow>filter (\<lambda>a. team a = t) as. place_value pp a)"
  using assms by (induction as arbitrary: sc) (auto simp: team_points_credit)

lemma team_points_fold_entries:
  assumes "map_of pp 0 = None"
  shows "team_points (fold (\<lambda>entry. credit pp g n (athlete entry)) es sc) t
         = team_points sc t + (\<Sum>a\<leftarrow>filter (\<lambda>a. team a = t) (map athlete es). place_value pp a)"
  using assms by (induction es arbitrary: sc) (auto simp: team_points_credit)

text \<open>
  Claim C8.  For every snapshot, gender and team, the points that
  \<^verbatim>\<open>compute_actual_scores\<close> holds for the team are the sum, over the team's athletes
  in the completed finals and the complete combined events of the gender, of the
  table's points for the athlete's final place when that place is set and in the
  table, and of 0 when the place is absent or outside the table.  The table is
  assumed not to list the place 0 (its domain is 1 to 8), which Python's truth test
  on the place would skip.
\<close>

theorem actual_scores_sum:
  assumes "map_of pp 0 = None"
  shows "team_points (compute_actual_scores pp st g) t
         = (\<Sum>a\<leftarrow>filter (\<lambda>a. team a = t) (scoring_athletes st g). place_value pp a)"
proof -
  have A: "team_points (fold (\<lambda>event sc.
                   fold (\<lambda>entry. credit pp g (event_name event) (athlete entry))
                     (entries event) sc) evs sc0) t
      = team_points sc0 t + (\<Sum>a\<leftarrow>filter (\<lambda>a. team a = t) (concat (map (\<lambda>e. map athlete (entries e)) evs)). place_value pp a)"
    for evs :: "MeetEvent list" and sc0
    using assms by (induction evs arbitrary: sc0) (auto simp: team_points_fold_entries)
  have B: "team_points (fold (\<lambda>combined sc.
                   if combined_gender combined \<noteq> g \<or> \<not> is_complete combined then sc
                   else fold (credit pp g (combined_name combined)) (athletes combined) sc) cs sc0) t
      = team_points sc0 t + (\<Sum>a\<leftarrow>filter (\<lambda>a. team a = t) (concat (map athletes
         (filter (\<lambda>c. combined_gender c = g \<and> is_complete c) cs))). place_value pp a)"
    for cs :: "CombinedEventResult list" and sc0
    using assms by (induction cs arbitrary: sc0) (auto simp: team_points_fold_credit)
  have C: "team_points [] t = 0" by (simp add: team_points_def)
  show ?thesis
    unfolding compute_actual_scores_def scoring_athletes_def Let_def A B C
    by simp
qed


text \<open>
  The synthetic final of the specification: places 1, 2 and 9 for the teams A, B
  and C; team C is never credited.
\<close>

definition final_1_2_9 :: MeetEvent where
  "final_1_2_9 =
     \<lparr>event_name = ''Men 60m'', base_event_name = ''60m'', gender = MEN, round_type = FINAL,
      status = STATUS_FINAL,
      entries =
        [\<lparr>athlete = \<lparr>name = ''a'', team = ''A'', final_place = Some 1\<rparr>, effective_seed = None\<rparr>,
         \<lparr>athlete = \<lparr>name = ''b'', team = ''B'', final_place = Some 2\<rparr>, effective_seed = None\<rparr>,
         \<lparr>athlete = \<lparr>name = ''c'', team = ''C'', final_place = Some 9\<rparr>, effective_seed = None\<rparr>]\<rparr>"

theorem actual_scores_sum_witness:
  "map_of example_points 0 = None
   \<and> team_points (compute_actual_scores example_points
         \<lparr>events = [final_1_2_9], combined_events = []\<rparr> MEN) ''A'' = 10
   \<and> team_points (compute_actual_scores example_points
         \<lparr>events = [final_1_2_9], combined_events = []\<rparr> MEN) ''C'' = 0"
proof -
  have h: "map_of example_points 0 = None" by (simp add: example_points_def)
  have a: "(\<Sum>a\<leftarrow>filter (\<lambda>a. team a = ''A'')
               (scoring_athletes \<lparr>events = [final_1_2_9], combined_events = []\<rparr> MEN).
             place_value example_points a) = 10"
    by (simp add: scoring_athletes_def get_completed_finals_def final_1_2_9_def place_value_def
        example_points_def)
  have c: "(\<Sum>a\<leftarrow>filter (\<lambda>a. team a = ''C'')
               (scoring_athletes \<lparr>events = [final_1_2_9], combined_events = []\<rparr> MEN).
             place_value example_points a) = 0"
    by (simp add: scoring_athletes_def get_completed_finals_def final_1_2_9_def place_value_def
        example_points_def)
  show ?thesis
    using h a c actual_scores_sum [OF h, of "\<lparr>events = [final_1_2_9], combined_events = []\<rparr>" MEN]
    by simp
qed

section \<open>The ceiling covers every team of the snapshot\<close>

definition nonneg_table :: "place_points \<Rightarrow> bool" where
  "nonneg_table pp = list_all (\<lambda>(p, v). 0 \<le> v) pp"

lemma nonneg_table_lookup: "nonneg_table pp \<Longrightarrow> map_of pp p = Some v \<Longrightarrow> 0 \<le> v"
  by (auto simp: nonneg_table_def list_all_iff dest!: map_of_SomeD)

definition base_points :: "scores \<Rightarrow> Gender \<Rightarrow> string \<Rightarrow> int" where
  "base_points actual g t = actual_points (dict_get actual t (new_TeamScore t g))"

text \<open>c' keeps every key of c, with a value at least as large.\<close>
definition grows :: "(string \<times> int) list \<Rightarrow> (string \<times> int) list \<Rightarrow> bool" where
  "grows c c' \<longleftrightarrow> (\<forall>t v. map_of c t = Some v \<longrightarrow> (\<exists>v'. map_of c' t = Some v' \<and> v \<le> v'))"

lemma grows_refl: "grows c c" by (simp add: grows_def)

lemma grows_trans: "grows a b \<Longrightarrow> grows b c \<Longrightarrow> grows a c"
  unfolding grows_def by (meson order_trans)

lemma grows_add:
  assumes "0 \<le> x"
  shows "grows c (dict_set c tm (dict_get c tm 0 + x))"
  using assms by (auto simp: grows_def map_of_dict_set dict_get_def)

lemma claim_places_grows:
  assumes "nonneg_table pp"
  shows "grows c (fst (claim_places pp tm n (c, place)))"
proof (induction n arbitrary: c place)
  case 0
  show ?case by (simp add: grows_refl)
next
  case (Suc n)
  show ?case
  proof (cases "map_of pp place")
    case None
    then show ?thesis using Suc[of c place] by (simp add: grows_refl)
  next
    case (Some x)
    have x: "0 \<le> x" using assms Some by (rule nonneg_table_lookup)
    let ?c = "dict_set c tm (dict_get c tm 0 + x)"
    have "grows c ?c" using x by (rule grows_add)
    moreover have "grows ?c (fst (claim_places pp tm n (?c, place + 1)))" by (rule Suc)
    ultimately have "grows c (fst (claim_places pp tm n (?c, place + 1)))" by (rule grows_trans)
    then show ?thesis using Some \<open>grows c ?c\<close> by simp
  qed
qed

lemma claim_places_other:
  assumes "t \<noteq> tm"
  shows "map_of (fst (claim_places pp tm n (c, place))) t = map_of c t"
  using assms by (induction n arbitrary: c place) (auto simp: map_of_dict_set)

lemma assign_teams_grows:
  assumes "nonneg_table pp"
  shows "grows c (fst (assign_teams pp ta tms (c, place)))"
proof (induction tms arbitrary: c place)
  case Nil
  show ?case by (simp add: grows_refl)
next
  case (Cons tm rest)
  obtain c' p' where cp: "claim_places pp tm (dict_get ta tm 0) (c, place) = (c', p')"
    by (cases "claim_places pp tm (dict_get ta tm 0) (c, place)")
  have g1: "grows c c'" using claim_places_grows[OF assms, of c tm "dict_get ta tm 0" place] cp by simp
  show ?case
  proof (cases "p' > 8")
    case True
    then show ?thesis using cp g1 by simp
  next
    case False
    have "grows c' (fst (assign_teams pp ta rest (c', p')))" by (rule Cons)
    with g1 have "grows c (fst (assign_teams pp ta rest (c', p')))" by (rule grows_trans)
    then show ?thesis using cp False by simp
  qed
qed

lemma assign_teams_other:
  assumes "t \<notin> set tms"
  shows "map_of (fst (assign_teams pp ta tms (c, place))) t = map_of c t"
  using assms
proof (induction tms arbitrary: c place)
  case Nil
  show ?case by simp
next
  case (Cons tm rest)
  obtain c' p' where cp: "claim_places pp tm (dict_get ta tm 0) (c, place) = (c', p')"
    by (cases "claim_places pp tm (dict_get ta tm 0) (c, place)")
  have "t \<noteq> tm" using Cons.prems by auto
  then have o1: "map_of c' t = map_of c t"
    using claim_places_other[of t tm pp "dict_get ta tm 0" c place] cp by simp
  have "map_of (fst (assign_teams pp ta rest (c', p'))) t = map_of c' t"
    using Cons by simp
  then show ?case using cp o1 by simp
qed

lemma keys_count_team_athletes:
  "fst ` set (count_team_athletes es) = (\<lambda>en. team (athlete en)) ` set es"
proof -
  have "fst ` set (fold (\<lambda>entry ta. dict_set ta (team (athlete entry)) (dict_get ta (team (athlete entry)) 0 + 1)) es d)
        = fst ` set d \<union> (\<lambda>en. team (athlete en)) ` set es" for d :: "(string \<times> nat) list"
    by (induction es arbitrary: d) (auto simp: keys_dict_set)
  then show ?thesis by (simp add: count_team_athletes_def)
qed

lemma ceiling_event_grows: "nonneg_table pp \<Longrightarrow> grows c (ceiling_event pp ev c)"
  by (simp add: ceiling_event_def Let_def assign_teams_grows)

lemma ceiling_event_other:
  assumes "\<forall>en \<in> set (entries ev). team (athlete en) \<noteq> t"
  shows "map_of (ceiling_event pp ev c) t = map_of c t"
proof -
  have "t \<notin> fst ` set (count_team_athletes (entries ev))"
    using assms by (auto simp: keys_count_team_athletes)
  then show ?thesis by (simp add: ceiling_event_def Let_def assign_teams_other)
qed

lemma fold_ceiling_grows: "nonneg_table pp \<Longrightarrow> grows c (fold (ceiling_event pp) evs c)"
proof (induction evs arbitrary: c)
  case Nil
  show ?case by (simp add: grows_refl)
next
  case (Cons ev evs)
  from Cons.prems have "grows c (ceiling_event pp ev c)" by (rule ceiling_event_grows)
  moreover have "grows (ceiling_event pp ev c) (fold (ceiling_event pp) evs (ceiling_event pp ev c))"
    using Cons by simp
  ultimately show ?case by (simp add: grows_trans)
qed

lemma fold_ceiling_other:
  assumes "\<forall>ev \<in> set evs. \<forall>en \<in> set (entries ev). team (athlete en) \<noteq> t"
  shows "map_of (fold (ceiling_event pp) evs c) t = map_of c t"
  using assms by (induction evs arbitrary: c) (simp_all add: ceiling_event_other)

lemma set_all_entry_teams:
  "set (all_entry_teams st)
     = {t. t \<noteq> [] \<and> (\<exists>ev \<in> set (events st). \<exists>en \<in> set (entries ev). team (athlete en) = t)}"
proof -
  have inner: "set (fold (\<lambda>entry s. if team (athlete entry) \<noteq> [] then List.insert (team (athlete entry)) s else s) es s)
      = set s \<union> {t. t \<noteq> [] \<and> (\<exists>en \<in> set es. team (athlete en) = t)}"
    for es :: "EventEntry list" and s
    by (induction es arbitrary: s) auto
  have outer: "set (fold (\<lambda>event s. fold (\<lambda>entry s. if team (athlete entry) \<noteq> [] then List.insert (team (athlete entry)) s else s) (entries event) s) evs s)
      = set s \<union> {t. t \<noteq> [] \<and> (\<exists>ev \<in> set evs. \<exists>en \<in> set (entries ev). team (athlete en) = t)}"
    for evs :: "MeetEvent list" and s
    by (induction evs arbitrary: s) (auto simp: inner)
  show ?thesis unfolding all_entry_teams_def outer by simp
qed

lemma map_of_ceilings0:
  "map_of (fold (\<lambda>tm c. dict_set c tm (f tm)) ts c0) t
     = (if t \<in> set ts then Some (f t) else map_of c0 t)"
  by (induction ts arbitrary: c0) (auto simp: map_of_dict_set)

text \<open>
  Claim C10.  Every non-empty team name that stands on an entry of any event of the
  snapshot (whatever the event's gender, round or status) is a key of the map
  returned by \<^verbatim>\<open>compute_optimistic_ceiling\<close>; when no points of the table are
  negative its value is at least the team's actual points, and it is exactly the
  actual points when the team has no entrant in an upcoming final of the gender.
  An entry with an empty team name carries no team (\<^verbatim>\<open>if entry.athlete.team\<close>).
\<close>

theorem ceiling_covers_entry_teams:
  assumes nn: "nonneg_table pp"
    and ev: "ev \<in> set (events st)" and en: "en \<in> set (entries ev)"
    and t: "team (athlete en) = t" "t \<noteq> []"
  shows "\<exists>v. map_of (compute_optimistic_ceiling pp actual st g) t = Some v
            \<and> base_points actual g t \<le> v
            \<and> ((\<forall>e' \<in> set (get_upcoming_finals st g). \<forall>en' \<in> set (entries e'). team (athlete en') \<noteq> t)
                 \<longrightarrow> v = base_points actual g t)"
proof -
  define c0 where "c0 = fold (\<lambda>tm c. dict_set c tm (base_points actual g tm)) (all_entry_teams st) []"
  have mem: "t \<in> set (all_entry_teams st)"
    using ev en t by (auto simp: set_all_entry_teams)
  have c0t: "map_of c0 t = Some (base_points actual g t)"
    unfolding c0_def map_of_ceilings0 using mem by simp
  have res: "compute_optimistic_ceiling pp actual st g = fold (ceiling_event pp) (get_upcoming_finals st g) c0"
    by (simp add: compute_optimistic_ceiling_def c0_def base_points_def)
  have "grows c0 (compute_optimistic_ceiling pp actual st g)"
    unfolding res using nn by (rule fold_ceiling_grows)
  then obtain v where v: "map_of (compute_optimistic_ceiling pp actual st g) t = Some v"
      "base_points actual g t \<le> v"
    using c0t unfolding grows_def by blast
  have "v = base_points actual g t"
    if "\<forall>e' \<in> set (get_upcoming_finals st g). \<forall>en' \<in> set (entries e'). team (athlete en') \<noteq> t"
    using fold_ceiling_other[OF that, of pp c0] v(1) c0t unfolding res by simp
  with v show ?thesis by blast
qed


text \<open>
  A women's preliminary round with an entrant of team C, queried for the men: C is a
  key of the men's ceiling, with its actual points, 0.
\<close>

definition women_prelim :: MeetEvent where
  "women_prelim =
     \<lparr>event_name = ''Women 200m'', base_event_name = ''200m'', gender = WOMEN,
      round_type = PRELIM, status = SCHEDULED,
      entries =
        [\<lparr>athlete = \<lparr>name = ''c'', team = ''C'', final_place = None\<rparr>, effective_seed = None\<rparr>]\<rparr>"

theorem ceiling_covers_entry_teams_witness:
  "nonneg_table example_points
   \<and> women_prelim \<in> set (events \<lparr>events = [women_prelim], combined_events = []\<rparr>)
   \<and> hd (entries women_prelim) \<in> set (entries women_prelim)
   \<and> team (athlete (hd (entries women_prelim))) = ''C''
   \<and> map_of (compute_optimistic_ceiling example_points []
         \<lparr>events = [women_prelim], combined_events = []\<rparr> MEN) ''C'' = Some 0"
proof -
  let ?st = "\<lparr>events = [women_prelim], combined_events = []\<rparr>"
  have h1: "nonneg_table example_points" by (simp add: nonneg_table_def example_points_def)
  have h2: "women_prelim \<in> set (events ?st)" by simp
  have h3: "hd (entries women_prelim) \<in> set (entries women_prelim)"
    by (simp add: women_prelim_def)
  have h4: "team (athlete (hd (entries women_prelim))) = ''C''" by (simp add: women_prelim_def)
  have h5: "''C'' \<noteq> []" by simp
  have up: "get_upcoming_finals ?st MEN = []"
    by (simp add: get_upcoming_finals_def women_prelim_def)
  have b: "base_points [] MEN ''C'' = 0"
    by (simp add: base_points_def dict_get_def new_TeamScore_def)
  from ceiling_covers_entry_teams [OF h1 h2 h3 h4 h5, of "[]" MEN]
  have "map_of (compute_optimistic_ceiling example_points [] ?st MEN) ''C'' = Some 0"
    unfolding up b by auto
  with h1 h2 h3 h4 show ?thesis by simp
qed

section \<open>Ceiling, projection and actual points\<close>

text \<open>
  An upcoming 60m final with two entrants: team A seeded 10.70 and team B seeded
  10.50.
\<close>

definition sprint_final :: MeetEvent where
  "sprint_final =
     \<lparr>event_name = ''Men 60m'', base_event_name = ''60m'', gender = MEN, round_type = FINAL,
      status = SCHEDULED,
      entries =
        [\<lparr>athlete = \<lparr>name = ''a'', team = ''A'', final_place = None\<rparr>,
          effective_seed = Some ''10.70''\<rparr>,
         \<lparr>athlete = \<lparr>name = ''b'', team = ''B'', final_place = None\<rparr>,
          effective_seed = Some ''10.50''\<rparr>]\<rparr>"

text \<open>
  Claim C1 states that the ceiling of every team is at least its seed projection.
  On the final above the ceiling estimator hands place 1 to team A, the first team
  in lexicographic order, and place 2 to team B, because the place counter is shared
  by the teams of an event; the projection ranks B first.  The ceiling of B is 8 and
  its projection is 10.
\<close>

theorem ceiling_below_projection:
  "map_of (compute_optimistic_ceiling example_points []
      \<lparr>events = [sprint_final], combined_events = []\<rparr> MEN) ''B'' = Some 8
   \<and> map_of (compute_seed_projection example_points []
      \<lparr>events = [sprint_final], combined_events = []\<rparr> MEN) ''B'' = Some 10"
  by code_simp

section \<open>The tie rule of the projection\<close>

text \<open>
  Two entrants whose keys are within 0.001 of each other, in an event of their own:
  the block takes the places 1 and 2 and each team is given the exact average of
  their points.
\<close>

lemma places_1_2: "[1 .. (2::int)] = [1, 2]"
  by (simp add: upto.simps)

lemma two_way_tie:
  assumes tie: "\<bar>key e2 - key e1\<bar> < 1 / 1000"
    and scoring: "0 < dict_get pp 1 0 \<or> 0 < dict_get pp 2 0"
  shows "project_blocks pp key [e1, e2] 1 proj
         = (let avg = (of_int (dict_get pp 1 0) + of_int (dict_get pp 2 0)) / 2;
                p1 = dict_set proj (team (athlete e1)) (dict_get proj (team (athlete e1)) 0 + avg)
            in dict_set p1 (team (athlete e2)) (dict_get p1 (team (athlete e2)) 0 + avg))"
  using tie scoring by (auto simp: Let_def places_1_2)

text \<open>An upcoming 3000m final with nine entrants of nine teams, none of them seeded.\<close>

definition unseeded_entry :: "string \<Rightarrow> EventEntry" where
  "unseeded_entry tm =
     \<lparr>athlete = \<lparr>name = ''runner'', team = tm, final_place = None\<rparr>, effective_seed = None\<rparr>"

definition unseeded_final :: MeetEvent where
  "unseeded_final =
     \<lparr>event_name = ''Men 3000m'', base_event_name = ''3000m'', gender = MEN, round_type = FINAL,
      status = SCHEDULED,
      entries = map unseeded_entry
        [''T1'', ''T2'', ''T3'', ''T4'', ''T5'', ''T6'', ''T7'', ''T8'', ''T9'']\<rparr>"

text \<open>
  Claim C2 states that a tied block is never awarded more than the table holds for
  the places it occupies.  The nine unseeded entrants all resolve to the sentinel
  key and form one block on the places 1 to 9.  The average is taken over the places
  1 to 8 only and handed to all nine: the block receives 9 times 39/8, more than
  the 39 points of the table.
\<close>

theorem tied_block_exceeds_table:
  "map snd (compute_seed_projection example_points []
      \<lparr>events = [unseeded_final], combined_events = []\<rparr> MEN) = replicate 9 (39 / 8)
   \<and> sum_list (map (\<lambda>p. dict_get example_points p 0) [1 .. 9]) = 39
   \<and> sum_list (replicate 9 (39 / 8 :: rat)) > 39"
  by code_simp

section \<open>The sort key of field marks\<close>

text \<open>A long jump with two entrants seeded in feet and inches: 13-04.50 and 12-00.00.\<close>

definition jumper_13 :: EventEntry where
  "jumper_13 =
     \<lparr>athlete = \<lparr>name = ''x'', team = ''A'', final_place = None\<rparr>,
      effective_seed = Some ''13-04.50''\<rparr>"

definition jumper_12 :: EventEntry where
  "jumper_12 =
     \<lparr>athlete = \<lparr>name = ''y'', team = ''B'', final_place = None\<rparr>,
      effective_seed = Some ''12-00.00''\<rparr>"

definition long_jump :: MeetEvent where
  "long_jump =
     \<lparr>event_name = ''Men Long Jump'', base_event_name = ''Long Jump'', gender = MEN,
      round_type = FINAL, status = SCHEDULED, entries = [jumper_13, jumper_12]\<rparr>"

text \<open>
  Claim C3 states that in a field event the key of every parseable mark is the
  negation of its magnitude.  A mark in feet and inches is already negated by
  \<^verbatim>\<open>_mark_to_seconds\<close> and negated again by \<^verbatim>\<open>_seed_sort_key\<close>: the key of 13-04.50
  is +160.5, that of 12-00.00 is +144, and the shorter jump is ranked first.  A
  metric mark (16.45) does get the key -16.45.
\<close>

theorem feet_inches_key_not_negated:
  "seed_sort_key jumper_13 long_jump = 321 / 2
   \<and> seed_sort_key jumper_12 long_jump = 144
   \<and> rank_entries_by_seed long_jump = [jumper_12, jumper_13]
   \<and> seed_sort_key (jumper_13\<lparr>effective_seed := Some ''16.45''\<rparr>) long_jump = - (329 / 20)"
  by code_simp

section \<open>No upcoming finals: the current leaders share the probability\<close>

lemma fold_max_Max: "fold max r (x::int) = Max (set (x # r))"
proof (induction r arbitrary: x)
  case Nil
  show ?case by simp
next
  case (Cons y r)
  have "fold max (y # r) x = Max (set (max y x # r))" using Cons by simp
  also have "\<dots> = Max (insert (max y x) (set r))" by simp
  also have "\<dots> = Max (insert x (insert y (set r)))"
    by (cases "set r = {}") (simp_all add: max.commute max.left_commute max.assoc)
  finally show ?case by simp
qed

lemma py_max_nonempty: "xs \<noteq> [] \<Longrightarrow> py_max xs = Inr (Max (set xs))"
  by (cases xs) (simp_all add: py_max_def fold_max_Max)

lemma collect_Inr: "collect (map (\<lambda>x. Inr (f x)) xs) = Inr (map f xs)"
  by (induction xs) simp_all

lemma collect_cong_Inr:
  assumes "\<And>x. x \<in> set xs \<Longrightarrow> h x = Inr (f x)"
  shows "collect (map h xs) = Inr (map f xs)"
proof -
  have "map h xs = map (\<lambda>x. Inr (f x)) xs" using assms by (simp cong: map_cong)
  then show ?thesis by (simp only: collect_Inr)
qed

text \<open>
  The statement of the degenerate distribution in the words of the specification:
  the maximum of the actual points, and the teams that share it.
\<close>

definition top_points :: "scores \<Rightarrow> int" where
  "top_points actual = Max (set (map (\<lambda>(t, ts). actual_points ts) actual))"

definition top_teams :: "scores \<Rightarrow> (string \<times> TeamScore) list" where
  "top_teams actual = filter (\<lambda>(t, ts). actual_points ts = top_points actual) actual"

lemma top_teams_nonempty:
  assumes "actual \<noteq> []"
  shows "top_teams actual \<noteq> []"
proof -
  let ?S = "set (map (\<lambda>(t, ts). actual_points ts) actual)"
  have "finite ?S" "?S \<noteq> {}" using assms by simp_all
  then have "Max ?S \<in> ?S" by (rule Max_in)
  then obtain x where "x \<in> set actual" "(\<lambda>(t, ts). actual_points ts) x = top_points actual"
    unfolding top_points_def by auto
  then have "x \<in> set (top_teams actual)" by (auto simp: top_teams_def)
  then show ?thesis by auto
qed

lemma key_in_top_teams:
  assumes "distinct (map fst actual)" and "(t, ts) \<in> set actual"
  shows "t \<in> set (map fst (top_teams actual)) \<longleftrightarrow> actual_points ts = top_points actual"
proof
  assume "t \<in> set (map fst (top_teams actual))"
  then obtain ts' where m: "(t, ts') \<in> set actual" "actual_points ts' = top_points actual"
    by (auto simp: top_teams_def)
  with assms have "ts' = ts" by (meson eq_key_imp_eq_value)
  with m show "actual_points ts = top_points actual" by simp
next
  assume "actual_points ts = top_points actual"
  with assms(2) have "(t, ts) \<in> set (top_teams actual)" by (simp add: top_teams_def)
  then show "t \<in> set (map fst (top_teams actual))" by force
qed

lemma current_leaders_eq:
  assumes "distinct (map fst actual)"
  shows "current_leaders actual
         = Inr (map (\<lambda>(t, ts). (t, if actual_points ts = top_points actual
                                    then 1 / of_nat (length (top_teams actual)) else 0)) actual)"
proof (cases "actual = []")
  case True
  then show ?thesis by (simp add: current_leaders_def)
next
  case False
  have mx: "py_max (map (\<lambda>(t, ts). actual_points ts) actual) = Inr (top_points actual)"
    using False by (simp add: py_max_nonempty top_points_def)
  have len: "length (top_teams actual) \<noteq> 0" using top_teams_nonempty[OF False] by simp
  have dv: "py_div 1 (of_nat (length (top_teams actual))) = Inr (1 / of_nat (length (top_teams actual)))"
    using len by (simp add: py_div_def)
  have "current_leaders actual
        = collect (map (\<lambda>(t, ts).
                                 if t \<in> set (map fst (top_teams actual))
                                 then (case py_div 1 (of_nat (length (map fst (top_teams actual)))) of
                                         Inl e \<Rightarrow> Inl e
                                       | Inr p \<Rightarrow> Inr (t, p))
                                 else Inr (t, 0)) actual)"
    using False unfolding current_leaders_def mx top_teams_def Let_def by simp
  also have "\<dots> = Inr (map (\<lambda>(t, ts). (t, if actual_points ts = top_points actual
                                    then 1 / of_nat (length (top_teams actual)) else 0)) actual)"
  proof (rule collect_cong_Inr)
    fix x assume x: "x \<in> set actual"
    obtain t ts where xe: "x = (t, ts)" by (cases x)
    show "(case x of (t, ts) \<Rightarrow>
                                 if t \<in> set (map fst (top_teams actual))
                                 then (case py_div 1 (of_nat (length (map fst (top_teams actual)))) of
                                         Inl e \<Rightarrow> Inl e
                                       | Inr p \<Rightarrow> Inr (t, p))
                                 else Inr (t, 0))
          = Inr (case x of (t, ts) \<Rightarrow> (t, if actual_points ts = top_points actual
                                    then 1 / of_nat (length (top_teams actual)) else 0))"
      using key_in_top_teams[OF assms, of t ts] x dv unfolding xe by simp
  qed
  finally show ?thesis .
qed

text \<open>
  Claim C6.  When no upcoming final of the gender has entries,
  \<^verbatim>\<open>compute_win_probability\<close> returns, whatever the iteration count and the random
  source, the map that gives each team of the actual-score map 1/k when its points
  are the maximum, k being the number of teams at the maximum, and 0 otherwise; for
  an empty actual-score map this is the empty map.  The actual-score map is a
  dictionary: each team is a key once.
\<close>

theorem no_upcoming_finals_distribution:
  assumes "upcoming_with_entries st g = []"
    and "distinct (map fst actual)"
  shows "compute_win_probability pp actual st g n_iterations rs
         = Inr (map (\<lambda>(t, ts). (t, if actual_points ts = top_points actual
                                    then 1 / of_nat (length (top_teams actual)) else 0)) actual)"
  using assms by (simp add: compute_win_probability_def current_leaders_eq)

text \<open>Teams A and B lead with 10 points each, team C has 6, and nothing is upcoming.\<close>

definition three_teams :: scores where
  "three_teams =
     [(''A'', \<lparr>ts_team = ''A'', ts_gender = MEN, actual_points = 10, events_scored = []\<rparr>),
      (''B'', \<lparr>ts_team = ''B'', ts_gender = MEN, actual_points = 10, events_scored = []\<rparr>),
      (''C'', \<lparr>ts_team = ''C'', ts_gender = MEN, actual_points = 6, events_scored = []\<rparr>)]"

theorem no_upcoming_finals_distribution_witness:
  "upcoming_with_entries \<lparr>events = [final_1_2_9], combined_events = []\<rparr> MEN = []
   \<and> distinct (map fst three_teams)
   \<and> compute_win_probability example_points three_teams
         \<lparr>events = [final_1_2_9], combined_events = []\<rparr> MEN 1000 (\<lambda>k. 0)
       = Inr [(''A'', 1 / 2), (''B'', 1 / 2), (''C'', 0)]"
proof -
  let ?st = "\<lparr>events = [final_1_2_9], combined_events = []\<rparr>"
  have h1: "upcoming_with_entries ?st MEN = []"
    by (simp add: upcoming_with_entries_def get_upcoming_finals_def final_1_2_9_def)
  have h2: "distinct (map fst three_teams)" by (simp add: three_teams_def)
  have tp: "top_points three_teams = 10" by (simp add: top_points_def three_teams_def)
  have tt: "length (top_teams three_teams) = 2" by (simp add: top_teams_def tp) (simp add: three_teams_def)
  have "compute_win_probability example_points three_teams ?st MEN 1000 (\<lambda>k. 0)
        = Inr [(''A'', 1 / 2), (''B'', 1 / 2), (''C'', 0)]"
    unfolding no_upcoming_finals_distribution [OF h1 h2] tp tt by (simp add: three_teams_def)
  with h1 h2 show ?thesis by simp
qed

section \<open>The simulator does not fault\<close>

declare place_loop.simps [simp del]

lemma choose_index_range:
  "choose_index r c i xs = 0 \<or> (i \<le> choose_index r c i xs \<and> choose_index r c i xs < i + length xs)"
proof (induction xs arbitrary: c i)
  case Nil
  show ?case by simp
next
  case (Cons x xs)
  obtain e p where x: "x = (e, p)" by (cases x)
  show ?case using Cons[of "c + p" "Suc i"] unfolding x by auto
qed

lemma choose_index_less: "xs \<noteq> [] \<Longrightarrow> choose_index r c 0 xs < length xs"
  using choose_index_range[of r c 0 xs] by auto

lemma py_pop_ok: "i < length xs \<Longrightarrow> py_pop xs i = Inr (xs ! i, take i xs @ drop (Suc i) xs)"
  by (simp add: py_pop_def)

lemma place_loop_total: "\<exists>s'. place_loop pp rs remaining place s = Inr s'"
proof (induction pp rs remaining place s rule: place_loop.induct)
  case (1 pp rs remaining place sim k)
  show ?case
  proof (cases "remaining = [] \<or> place > 8 \<or> sum_list (map snd remaining) \<le> 0")
    case True
    then show ?thesis by (subst place_loop.simps) (auto simp: Let_def)
  next
    case False
    let ?i = "choose_index (rs k * sum_list (map snd remaining)) 0 0 remaining"
    have i: "?i < length remaining" using False by (simp add: choose_index_less)
    have pop: "py_pop remaining ?i = Inr (remaining ! ?i, take ?i remaining @ drop (Suc ?i) remaining)"
      using i by (rule py_pop_ok)
    from False have c1: "\<not> (remaining = [] \<or> 8 < place)" and c2: "\<not> sum_list (map snd remaining) \<le> 0"
      by auto
    have "\<exists>s'. place_loop pp rs (take ?i remaining @ drop (Suc ?i) remaining) (place + 1)
            (award pp place (fst (remaining ! ?i)) sim, Suc k) = Inr s'"
      by (rule "1.IH"[OF c1 refl c2 refl refl pop refl])
    then show ?thesis using False pop by (subst place_loop.simps) (simp add: Let_def)
  qed
qed

lemma collect_total:
  assumes "\<And>x. x \<in> set xs \<Longrightarrow> \<exists>v. x = Inr v"
  shows "\<exists>vs. collect xs = Inr vs"
  using assms
proof (induction xs)
  case Nil
  show ?case by simp
next
  case (Cons x xs)
  obtain v where v: "x = Inr v" using Cons.prems[of x] by auto
  obtain vs where vs: "collect xs = Inr vs" using Cons by auto
  show ?case by (simp add: v vs)
qed

lemma simulate_events_total: "\<exists>s'. simulate_events pp rs eds s = Inr s'"
proof (induction eds arbitrary: s)
  case Nil
  show ?case by simp
next
  case (Cons ed eds)
  obtain ev ranked probs where ed: "ed = (ev, ranked, probs)" by (cases ed)
  obtain s1 where s1: "place_loop pp rs (zip ranked probs) 1 s = Inr s1"
    using place_loop_total by blast
  show ?case using Cons[of s1] by (simp add: ed s1)
qed

definition nonneg_credit :: "(string \<times> rat) list \<Rightarrow> bool" where
  "nonneg_credit wc = list_all (\<lambda>(t, v). 0 \<le> v) wc"

lemma nonneg_credit_lookup: "nonneg_credit wc \<Longrightarrow> 0 \<le> dict_get wc t 0"
  by (auto simp: nonneg_credit_def dict_get_def list_all_iff split: option.splits dest!: map_of_SomeD)

lemma set_dict_set: "set (dict_set d k v) \<subseteq> insert (k, v) (set d)"
  by (induction d) (auto split: if_splits)

lemma nonneg_credit_dict_set: "nonneg_credit wc \<Longrightarrow> 0 \<le> v \<Longrightarrow> nonneg_credit (dict_set wc t v)"
  using set_dict_set[of wc t v] by (auto simp: nonneg_credit_def list_all_iff)

lemma credit_leaders_total:
  assumes "ts = [] \<or> n \<noteq> 0" and "nonneg_credit wc"
  shows "\<exists>wc'. credit_leaders ts n wc = Inr wc' \<and> nonneg_credit wc'"
  using assms
proof (induction ts arbitrary: wc)
  case Nil
  then show ?case by simp
next
  case (Cons t ts)
  then have n: "n \<noteq> 0" by simp
  have "nonneg_credit (dict_set wc t (dict_get wc t 0 + 1 / of_nat n))"
    using Cons.prems(2) nonneg_credit_lookup[of wc t] by (intro nonneg_credit_dict_set) simp_all
  then show ?case using Cons.IH n by (simp add: py_div_def)
qed

lemma run_trial_total:
  assumes "nonneg_credit (fst s)"
  shows "\<exists>s'. run_trial pp rs actual g teams eds s = Inr s' \<and> nonneg_credit (fst s')"
proof -
  let ?sim0 = "map (\<lambda>t. (t, actual_points (dict_get actual t (new_TeamScore t g)))) teams"
  obtain sim k where sk: "simulate_events pp rs eds (?sim0, snd s) = Inr (sim, k)"
    using simulate_events_total[of pp rs eds "(?sim0, snd s)"] by force
  obtain m where m: "(if sim \<noteq> [] then py_max (map snd sim) else Inr 0) = Inr m"
    by (cases "sim = []") (simp_all add: py_max_nonempty)
  let ?leaders = "map fst (filter (\<lambda>(t, sc). sc = m) sim)"
  have "?leaders = [] \<or> length ?leaders \<noteq> 0" by simp
  then obtain wc' where wc': "credit_leaders ?leaders (length ?leaders) (fst s) = Inr wc'"
      "nonneg_credit wc'"
    using credit_leaders_total[OF _ assms] by blast
  show ?thesis unfolding run_trial_def Let_def sk using m wc' by simp
qed

lemma run_trials_total:
  assumes "nonneg_credit (fst s)"
  shows "\<exists>s'. run_trials pp rs actual g teams eds n s = Inr s' \<and> nonneg_credit (fst s')"
  using assms
proof (induction n arbitrary: s)
  case 0
  then show ?case by simp
next
  case (Suc n)
  obtain s1 where s1: "run_trial pp rs actual g teams eds s = Inr s1" "nonneg_credit (fst s1)"
    using run_trial_total[OF Suc.prems] by blast
  show ?case using Suc.IH[OF s1(2)] by (simp add: s1(1))
qed

lemma strength_positive: "0 < seed_rank_to_strength rank n tp"
  by (simp add: seed_rank_to_strength_def Let_def)

lemma sum_list_pos:
  fixes xs :: "rat list"
  assumes "xs \<noteq> []" and "\<And>x. x \<in> set xs \<Longrightarrow> 0 < x"
  shows "0 < sum_list xs"
  using assms
proof (induction xs)
  case Nil
  then show ?case by simp
next
  case (Cons x xs)
  have "0 < x" using Cons.prems(2) by simp
  moreover have "0 \<le> sum_list xs"
    using Cons.prems(2) by (intro sum_list_nonneg) (auto intro: less_imp_le)
  ultimately show ?case by simp
qed

lemma event_data_of_total: "\<exists>ranked probs. event_data_of ev = Inr (ev, ranked, probs)"
proof -
  let ?ranked = "rank_entries_by_seed ev"
  let ?str = "map (\<lambda>i. seed_rank_to_strength (int i + 1) (int (length ?ranked))
                     (get_top_seed_win_prob ev)) [0 ..< length ?ranked]"
  have "\<exists>vs. collect (map (\<lambda>s. py_div s (sum_list ?str)) ?str) = Inr vs"
  proof (rule collect_total)
    fix x assume "x \<in> set (map (\<lambda>s. py_div s (sum_list ?str)) ?str)"
    then obtain s where s: "s \<in> set ?str" "x = py_div s (sum_list ?str)" by auto
    then have "?str \<noteq> []" by auto
    then have "0 < sum_list ?str"
      by (rule sum_list_pos) (auto simp: strength_positive)
    then show "\<exists>v. x = Inr v" using s(2) by (simp add: py_div_def)
  qed
  then show ?thesis by (auto simp: event_data_of_def Let_def)
qed

lemma member_le_sum_nonneg:
  fixes xs :: "rat list"
  assumes "\<And>x. x \<in> set xs \<Longrightarrow> 0 \<le> x" and "v \<in> set xs"
  shows "v \<le> sum_list xs"
  using assms
proof (induction xs)
  case Nil
  then show ?case by simp
next
  case (Cons x xs)
  have rest: "0 \<le> sum_list xs" using Cons.prems(1) by (intro sum_list_nonneg) auto
  show ?case
  proof (cases "v = x")
    case True
    then show ?thesis using rest by simp
  next
    case False
    then have "v \<le> sum_list xs" using Cons by auto
    moreover have "0 \<le> x" using Cons.prems(1) by simp
    ultimately show ?thesis by simp
  qed
qed

lemma credit_total_positive:
  assumes "nonneg_credit wc" and "0 < dict_get wc t 0"
  shows "0 < sum_list (map snd wc)"
proof -
  obtain v where v: "map_of wc t = Some v" "0 < v"
    using assms(2) by (auto simp: dict_get_def split: option.splits)
  then have "v \<in> set (map snd wc)" by (force dest: map_of_SomeD)
  moreover have "\<And>x. x \<in> set (map snd wc) \<Longrightarrow> 0 \<le> x"
    using assms(1) by (auto simp: nonneg_credit_def list_all_iff)
  ultimately have "v \<le> sum_list (map snd wc)" by (intro member_le_sum_nonneg) auto
  with v(2) show ?thesis by simp
qed

lemma normalise_credit_total:
  assumes "nonneg_credit wc"
  shows "\<exists>res. normalise_credit teams wc = Inr res"
  unfolding normalise_credit_def Let_def
proof (rule collect_total)
  fix x
  assume "x \<in> set (map (\<lambda>t. case py_div (dict_get wc t 0) (sum_list (map snd wc)) of
                              Inl e \<Rightarrow> Inl e | Inr p \<Rightarrow> Inr (t, p))
                    (filter (\<lambda>t. dict_get wc t 0 > 0) teams))"
  then obtain t where t: "0 < dict_get wc t 0"
      "x = (case py_div (dict_get wc t 0) (sum_list (map snd wc)) of
              Inl e \<Rightarrow> Inl e | Inr p \<Rightarrow> Inr (t, p))"
    by auto
  have "0 < sum_list (map snd wc)" using assms t(1) by (rule credit_total_positive)
  then show "\<exists>v. x = Inr v" using t(2) by (simp add: py_div_def)
qed

lemma current_leaders_total: "\<exists>res. current_leaders actual = Inr res"
proof (cases "actual = []")
  case True
  then show ?thesis by (simp add: current_leaders_def)
next
  case False
  have mx: "py_max (map (\<lambda>(t, ts). actual_points ts) actual) = Inr (top_points actual)"
    using False by (simp add: py_max_nonempty top_points_def)
  let ?winners = "map fst (top_teams actual)"
  have "\<exists>vs. collect (map (\<lambda>(t, ts).
                                 if t \<in> set ?winners
                                 then (case py_div 1 (of_nat (length ?winners)) of
                                         Inl e \<Rightarrow> Inl e
                                       | Inr p \<Rightarrow> Inr (t, p))
                                 else Inr (t, 0)) actual) = Inr vs"
  proof (rule collect_total)
    fix x
    assume "x \<in> set (map (\<lambda>(t, ts).
                                 if t \<in> set ?winners
                                 then (case py_div 1 (of_nat (length ?winners)) of
                                         Inl e \<Rightarrow> Inl e
                                       | Inr p \<Rightarrow> Inr (t, p))
                                 else Inr (t, 0)) actual)"
    then obtain t ts where x: "x = (if t \<in> set ?winners
                                 then (case py_div 1 (of_nat (length ?winners)) of
                                         Inl e \<Rightarrow> Inl e
                                       | Inr p \<Rightarrow> Inr (t, p))
                                 else Inr (t, 0))"
      by auto
    have "length ?winners \<noteq> 0" using top_teams_nonempty[OF False] by simp
    then show "\<exists>v. x = Inr v" unfolding x by (simp add: py_div_def)
  qed
  then show ?thesis using False unfolding current_leaders_def mx top_teams_def Let_def by simp
qed

lemma award_single:
  "place_loop pp rs [(e, 1)] 1 (sim, k) = Inr (award pp 1 e sim, Suc k)"
proof -
  have a: "place_loop pp rs [] 2 (award pp 1 e sim, Suc k) = Inr (award pp 1 e sim, Suc k)"
    by (subst place_loop.simps) simp
  show ?thesis
    by (subst place_loop.simps) (simp add: Let_def py_pop_def a)
qed

lemma event_data_single:
  assumes "rank_entries_by_seed ev = [e]"
  shows "event_data_of ev = Inr (ev, [e], [1])"
  using assms by (simp add: event_data_of_def Let_def seed_rank_to_strength_def py_div_def)

text \<open>
  Claim C4.  For every table, actual-score map, snapshot, gender, iteration count
  and random source, \<^verbatim>\<open>compute_win_probability\<close> returns a map and raises no
  fault: each division has a non-zero divisor or is not reached (an upcoming final
  whose entries all lack an athlete name has no strengths to normalise and draws
  nobody).  An event with a single named entrant has the probability list [1], and
  in every trial, whatever the draw, its place 1 is awarded to that entrant.
\<close>

theorem win_probability_never_faults:
  "(\<exists>res. compute_win_probability pp actual st g n_iterations rs = Inr res)
   \<and> (rank_entries_by_seed ev = [e] \<longrightarrow>
        event_data_of ev = Inr (ev, [e], [1])
        \<and> simulate_events pp rs' [(ev, [e], [1])] (sim, k) = Inr (award pp 1 e sim, Suc k))"
proof
  let ?up = "upcoming_with_entries st g"
  show "\<exists>res. compute_win_probability pp actual st g n_iterations rs = Inr res"
  proof (cases "?up = []")
    case True
    then show ?thesis using current_leaders_total[of actual]
      by (simp add: compute_win_probability_def)
  next
    case False
    have "\<exists>eds. collect (map event_data_of ?up) = Inr eds"
    proof (rule collect_total)
      fix x assume "x \<in> set (map event_data_of ?up)"
      then obtain ev' where "x = event_data_of ev'" by auto
      then show "\<exists>v. x = Inr v" using event_data_of_total[of ev'] by auto
    qed
    then obtain eds where eds: "collect (map event_data_of ?up) = Inr eds" ..
    have "nonneg_credit (fst ([], 0 :: nat))" by (simp add: nonneg_credit_def)
    then obtain wc k' where acc: "accumulated_credit pp actual g eds n_iterations rs = Inr (wc, k')"
        and nn: "nonneg_credit wc"
      unfolding accumulated_credit_def
      using run_trials_total[of "([], 0)" pp rs actual g "simulation_teams actual eds" eds "nat n_iterations"]
      by auto
    obtain res where "normalise_credit (simulation_teams actual eds) wc = Inr res"
      using normalise_credit_total[OF nn] by blast
    then show ?thesis using False by (simp add: compute_win_probability_def eds acc)
  qed
next
  show "rank_entries_by_seed ev = [e] \<longrightarrow>
        event_data_of ev = Inr (ev, [e], [1])
        \<and> simulate_events pp rs' [(ev, [e], [1])] (sim, k) = Inr (award pp 1 e sim, Suc k)"
    by (simp add: event_data_single award_single)
qed

text \<open>
  An upcoming final whose only entry has no athlete name, and the unseeded entrant
  of team T1 alone in a final.
\<close>

definition nameless_final :: MeetEvent where
  "nameless_final =
     \<lparr>event_name = ''Men 800m'', base_event_name = ''800m'', gender = MEN, round_type = FINAL,
      status = SCHEDULED,
      entries =
        [\<lparr>athlete = \<lparr>name = [], team = ''X'', final_place = None\<rparr>, effective_seed = None\<rparr>]\<rparr>"

definition solo_final :: MeetEvent where
  "solo_final =
     \<lparr>event_name = ''Men Mile'', base_event_name = ''Mile'', gender = MEN, round_type = FINAL,
      status = SCHEDULED, entries = [unseeded_entry ''T1'']\<rparr>"

theorem win_probability_never_faults_witness:
  "(\<exists>res. compute_win_probability example_points []
            \<lparr>events = [nameless_final], combined_events = []\<rparr> MEN 3 (\<lambda>k. 1 / 2) = Inr res)
   \<and> rank_entries_by_seed solo_final = [unseeded_entry ''T1'']
   \<and> event_data_of solo_final = Inr (solo_final, [unseeded_entry ''T1''], [1])
   \<and> simulate_events example_points (\<lambda>k. 1 / 2)
         [(solo_final, [unseeded_entry ''T1''], [1])] ([], 0) = Inr ([(''T1'', 10)], 1)"
proof -
  have h: "rank_entries_by_seed solo_final = [unseeded_entry ''T1'']"
    by (simp add: rank_entries_by_seed_def solo_final_def unseeded_entry_def)
  have a: "award example_points 1 (unseeded_entry ''T1'') [] = [(''T1'', 10)]"
    by (simp add: award_def unseeded_entry_def example_points_def dict_get_def)
  show ?thesis
    using h a
      win_probability_never_faults [of example_points "[]"
        "\<lparr>events = [nameless_final], combined_events = []\<rparr>" MEN 3 "\<lambda>k. 1 / 2"
        solo_final "unseeded_entry ''T1''" "\<lambda>k. 1 / 2" "[]" 0]
    by simp
qed

section \<open>The returned probabilities sum to one\<close>

lemma keys_dict_set_list:
  "map fst (dict_set d k v) = (if k \<in> set (map fst d) then map fst d else map fst d @ [k])"
  by (induction d) (force+)

lemma distinct_dict_set: "distinct (map fst d) \<Longrightarrow> distinct (map fst (dict_set d k v))"
  by (simp add: keys_dict_set_list)

lemma award_keys:
  "fst ` set sim \<subseteq> fst ` set (award pp place e sim)
   \<and> fst ` set (award pp place e sim) \<subseteq> insert (team (athlete e)) (fst ` set sim)"
  by (auto simp: award_def Let_def keys_dict_set)

lemma place_loop_keys:
  assumes "place_loop pp rs remaining place s = Inr s'"
  shows "fst ` set (fst s) \<subseteq> fst ` set (fst s')
         \<and> fst ` set (fst s') \<subseteq> fst ` set (fst s) \<union> (\<lambda>x. team (athlete (fst x))) ` set remaining"
  using assms
proof (induction pp rs remaining place s arbitrary: s' rule: place_loop.induct)
  case (1 pp rs remaining place sim k)
  show ?case
  proof (cases "remaining = [] \<or> place > 8 \<or> sum_list (map snd remaining) \<le> 0")
    case True
    then have "place_loop pp rs remaining place (sim, k) = Inr (sim, k)"
      by (subst place_loop.simps) (auto simp: Let_def)
    with "1.prems" show ?thesis by auto
  next
    case False
    let ?i = "choose_index (rs k * sum_list (map snd remaining)) 0 0 remaining"
    let ?rest = "take ?i remaining @ drop (Suc ?i) remaining"
    let ?sim = "award pp place (fst (remaining ! ?i)) sim"
    have i: "?i < length remaining" using False by (simp add: choose_index_less)
    have pop: "py_pop remaining ?i = Inr (remaining ! ?i, ?rest)"
      using i by (rule py_pop_ok)
    from False have c1: "\<not> (remaining = [] \<or> 8 < place)" and c2: "\<not> sum_list (map snd remaining) \<le> 0"
      by auto
    have step: "place_loop pp rs remaining place (sim, k)
                = place_loop pp rs ?rest (place + 1) (?sim, Suc k)"
      using False pop by (subst place_loop.simps) (simp add: Let_def)
    then have rec: "place_loop pp rs ?rest (place + 1) (?sim, Suc k) = Inr s'"
      using "1.prems" by simp
    have ih: "fst ` set (fst (?sim, Suc k)) \<subseteq> fst ` set (fst s')
         \<and> fst ` set (fst s') \<subseteq> fst ` set (fst (?sim, Suc k))
               \<union> (\<lambda>x. team (athlete (fst x))) ` set ?rest"
      by (rule "1.IH"[OF c1 refl c2 refl refl pop refl rec])
    have rest: "set ?rest \<subseteq> set remaining"
      using set_take_subset[of ?i remaining] set_drop_subset[of "Suc ?i" remaining] by auto
    have mem: "remaining ! ?i \<in> set remaining" using i by simp
    have aw: "fst ` set sim \<subseteq> fst ` set ?sim"
        "fst ` set ?sim \<subseteq> insert (team (athlete (fst (remaining ! ?i)))) (fst ` set sim)"
      using award_keys[of sim pp place "fst (remaining ! ?i)"] by auto
    show ?thesis
    proof
      show "fst ` set (fst (sim, k)) \<subseteq> fst ` set (fst s')" using ih aw(1) by auto
      show "fst ` set (fst s') \<subseteq> fst ` set (fst (sim, k))
              \<union> (\<lambda>x. team (athlete (fst x))) ` set remaining"
      proof
        fix t assume "t \<in> fst ` set (fst s')"
        with ih have "t \<in> fst ` set ?sim \<or> t \<in> (\<lambda>x. team (athlete (fst x))) ` set ?rest" by auto
        then show "t \<in> fst ` set (fst (sim, k)) \<union> (\<lambda>x. team (athlete (fst x))) ` set remaining"
          using aw(2) rest mem by auto
      qed
    qed
  qed
qed

definition ranked_teams :: "(MeetEvent \<times> EventEntry list \<times> rat list) list \<Rightarrow> string set" where
  "ranked_teams eds = (\<Union>ed \<in> set eds. (\<lambda>en. team (athlete en)) ` set (fst (snd ed)))"

lemma subset_chain:
  "A \<subseteq> B \<union> Z' \<Longrightarrow> Z' \<subseteq> Z \<Longrightarrow> C \<subseteq> A \<union> R \<Longrightarrow> C \<subseteq> B \<union> (Z \<union> R)"
  by blast

lemma simulate_events_keys:
  assumes "simulate_events pp rs eds s = Inr s'"
  shows "fst ` set (fst s) \<subseteq> fst ` set (fst s')
         \<and> fst ` set (fst s') \<subseteq> fst ` set (fst s) \<union> ranked_teams eds"
  using assms
proof (induction eds arbitrary: s)
  case Nil
  then show ?case by simp
next
  case (Cons ed eds)
  obtain ev ranked probs where ed: "ed = (ev, ranked, probs)" by (cases ed)
  obtain s1 where s1: "place_loop pp rs (zip ranked probs) 1 s = Inr s1"
    using place_loop_total by blast
  have rec: "simulate_events pp rs eds s1 = Inr s'" using Cons.prems by (simp add: ed s1)
  have k1: "fst ` set (fst s) \<subseteq> fst ` set (fst s1)"
     "fst ` set (fst s1) \<subseteq> fst ` set (fst s) \<union> (\<lambda>x. team (athlete (fst x))) ` set (zip ranked probs)"
    using place_loop_keys[OF s1] by auto
  have z: "(\<lambda>x. team (athlete (fst x))) ` set (zip ranked probs) \<subseteq> (\<lambda>en. team (athlete en)) ` set ranked"
    by (auto dest: set_zip_leftD)
  have k2: "fst ` set (fst s1) \<subseteq> fst ` set (fst s')"
     "fst ` set (fst s') \<subseteq> fst ` set (fst s1) \<union> ranked_teams eds"
    using Cons.IH[OF rec] by auto
  have rt: "ranked_teams (ed # eds) = (\<lambda>en. team (athlete en)) ` set ranked \<union> ranked_teams eds"
    by (simp add: ranked_teams_def ed)
  have lower: "fst ` set (fst s) \<subseteq> fst ` set (fst s')"
    using k1(1) k2(1) by (rule order_trans)
  have upper: "fst ` set (fst s') \<subseteq> fst ` set (fst s) \<union> ranked_teams (ed # eds)"
    unfolding rt using k1(2) z k2(2) by (rule subset_chain)
  show ?case using lower upper by simp
qed

lemma set_simulation_teams:
  "set (simulation_teams actual eds) = fst ` set actual \<union> ranked_teams eds"
proof -
  have a: "set (fold List.insert xs s) = set xs \<union> set s" for xs s :: "string list"
    by (induction xs arbitrary: s) auto
  have b: "set (fold (\<lambda>entry s. List.insert (team (athlete entry)) s) es s)
           = (\<lambda>en. team (athlete en)) ` set es \<union> set s" for es :: "EventEntry list" and s
    by (induction es arbitrary: s) auto
  have c: "set (fold (\<lambda>ed s. fold (\<lambda>entry s. List.insert (team (athlete entry)) s) (fst (snd ed)) s) eds s)
           = ranked_teams eds \<union> set s" for s
    by (induction eds arbitrary: s) (auto simp: b ranked_teams_def)
  show ?thesis unfolding simulation_teams_def c a by auto
qed

lemma distinct_simulation_teams: "distinct (simulation_teams actual eds)"
proof -
  have a: "distinct s \<Longrightarrow> distinct (fold List.insert xs s)" for xs s :: "string list"
    by (induction xs arbitrary: s) auto
  have b: "distinct s \<Longrightarrow> distinct (fold (\<lambda>entry s. List.insert (team (athlete entry)) s) es s)"
    for es :: "EventEntry list" and s
    by (induction es arbitrary: s) auto
  have c: "distinct s \<Longrightarrow> distinct (fold (\<lambda>ed s. fold (\<lambda>entry s. List.insert (team (athlete entry)) s) (fst (snd ed)) s) eds s)" for s
    by (induction eds arbitrary: s) (auto simp: b)
  show ?thesis unfolding simulation_teams_def by (intro c a) simp
qed

text \<open>The invariant of the credit map: distinct keys, all among the teams, all credits positive.\<close>
definition credit_inv :: "string list \<Rightarrow> (string \<times> rat) list \<Rightarrow> bool" where
  "credit_inv teams wc \<longleftrightarrow>
     distinct (map fst wc) \<and> fst ` set wc \<subseteq> set teams \<and> list_all (\<lambda>(t, v). 0 < v) wc"

lemma credit_inv_nonneg: "credit_inv teams wc \<Longrightarrow> nonneg_credit wc"
  by (auto simp: credit_inv_def nonneg_credit_def list_all_iff)

lemma credit_leaders_inv:
  assumes "credit_inv teams wc" and "set ls \<subseteq> set teams" and "n \<noteq> 0"
    and "credit_leaders ls n wc = Inr wc'"
  shows "credit_inv teams wc' \<and> fst ` set wc' = fst ` set wc \<union> set ls"
  using assms
proof (induction ls arbitrary: wc)
  case Nil
  then show ?case by simp
next
  case (Cons t ls)
  let ?wc = "dict_set wc t (dict_get wc t 0 + 1 / of_nat n)"
  have pos: "0 < dict_get wc t 0 + 1 / of_nat n"
    using nonneg_credit_lookup[OF credit_inv_nonneg[OF Cons.prems(1)], of t] Cons.prems(3)
    by (simp add: add_nonneg_pos)
  have d: "distinct (map fst ?wc)"
    using Cons.prems(1) by (simp add: credit_inv_def distinct_dict_set)
  have ks: "fst ` set ?wc \<subseteq> set teams"
    using Cons.prems(1,2) by (simp add: credit_inv_def keys_dict_set)
  have "\<And>x. x \<in> set ?wc \<Longrightarrow> 0 < snd x"
  proof -
    fix x assume "x \<in> set ?wc"
    then have "x = (t, dict_get wc t 0 + 1 / of_nat n) \<or> x \<in> set wc"
      using set_dict_set[of wc t "dict_get wc t 0 + 1 / of_nat n"] by auto
    then show "0 < snd x"
      using pos Cons.prems(1) by (auto simp: credit_inv_def list_all_iff)
  qed
  then have ps: "list_all (\<lambda>(t, v). 0 < v) ?wc" by (auto simp: list_all_iff)
  have inv: "credit_inv teams ?wc"
    using d ks ps by (simp add: credit_inv_def)
  have rec: "credit_leaders ls n ?wc = Inr wc'"
    using Cons.prems(3,4) by (simp add: py_div_def)
  have "credit_inv teams wc' \<and> fst ` set wc' = fst ` set ?wc \<union> set ls"
    using Cons.IH[OF inv _ Cons.prems(3) rec] Cons.prems(2) by simp
  then show ?case by (auto simp: keys_dict_set)
qed

lemma run_trial_inv:
  assumes inv: "credit_inv teams (fst s)"
    and rt: "ranked_teams eds \<subseteq> set teams"
    and run: "run_trial pp rs actual g teams eds s = Inr s'"
  shows "credit_inv teams (fst s') \<and> fst ` set (fst s) \<subseteq> fst ` set (fst s')
         \<and> (teams \<noteq> [] \<longrightarrow> fst s' \<noteq> [])"
proof -
  let ?sim0 = "map (\<lambda>t. (t, actual_points (dict_get actual t (new_TeamScore t g)))) teams"
  obtain sim k where sk: "simulate_events pp rs eds (?sim0, snd s) = Inr (sim, k)"
    using simulate_events_total[of pp rs eds "(?sim0, snd s)"] by force
  have k0: "fst ` set ?sim0 = set teams" by force
  have keys: "fst ` set sim = set teams"
    using simulate_events_keys[OF sk] rt k0 by auto
  obtain m where m: "(if sim \<noteq> [] then py_max (map snd sim) else Inr 0) = Inr m"
      and mm: "sim \<noteq> [] \<longrightarrow> m = Max (set (map snd sim))"
    by (cases "sim = []") (simp_all add: py_max_nonempty)
  let ?leaders = "map fst (filter (\<lambda>(t, sc). sc = m) sim)"
  have sub: "set ?leaders \<subseteq> set teams" using keys by auto
  have ne: "teams \<noteq> [] \<longrightarrow> ?leaders \<noteq> []"
  proof
    assume "teams \<noteq> []"
    with keys have sne: "sim \<noteq> []" by auto
    then have "Max (set (map snd sim)) \<in> set (map snd sim)" by (intro Max_in) simp_all
    with mm sne have "m \<in> snd ` set sim" by simp
    then obtain x where x: "m = snd x" "x \<in> set sim" by (rule imageE)
    then have "x \<in> set (filter (\<lambda>(t, sc). sc = m) sim)" by (cases x) auto
    then have "filter (\<lambda>(t, sc). sc = m) sim \<noteq> []" by (metis empty_iff empty_set)
    then show "?leaders \<noteq> []" by simp
  qed
  obtain wc' where wc': "credit_leaders ?leaders (length ?leaders) (fst s) = Inr wc'"
    using credit_leaders_total[OF _ credit_inv_nonneg[OF inv], of ?leaders "length ?leaders"] by auto
  have s': "s' = (wc', k)" using run unfolding run_trial_def Let_def sk using m wc' by simp
  show ?thesis
  proof (cases "?leaders = []")
    case True
    then have w: "wc' = fst s" using wc' by simp
    have "teams = []" using ne True by blast
    then show ?thesis using inv w s' by simp
  next
    case False
    then have "length ?leaders \<noteq> 0" by simp
    from credit_leaders_inv[OF inv sub this wc']
    have r: "credit_inv teams wc'" "fst ` set wc' = fst ` set (fst s) \<union> set ?leaders" by auto
    have "set ?leaders \<noteq> {}" using False by (simp only: set_empty simp_thms)
    with r(2) have "fst ` set wc' \<noteq> {}" by (metis Un_empty)
    then have "wc' \<noteq> []" by auto
    moreover have "fst ` set (fst s) \<subseteq> fst ` set wc'" using r(2) by (metis Un_upper1)
    ultimately show ?thesis using r(1) s' by simp
  qed
qed

lemma run_trials_inv:
  assumes "credit_inv teams (fst s)"
    and "ranked_teams eds \<subseteq> set teams"
    and "run_trials pp rs actual g teams eds n s = Inr s'"
  shows "credit_inv teams (fst s') \<and> fst ` set (fst s) \<subseteq> fst ` set (fst s')
         \<and> (teams \<noteq> [] \<and> 0 < n \<longrightarrow> fst s' \<noteq> [])"
  using assms
proof (induction n arbitrary: s)
  case 0
  then show ?case by simp
next
  case (Suc n)
  obtain s1 where s1: "run_trial pp rs actual g teams eds s = Inr s1"
    using run_trial_total[OF credit_inv_nonneg[OF Suc.prems(1)]] by blast
  have r1: "credit_inv teams (fst s1)" "fst ` set (fst s) \<subseteq> fst ` set (fst s1)"
      "teams \<noteq> [] \<longrightarrow> fst s1 \<noteq> []"
    using run_trial_inv[OF Suc.prems(1,2) s1] by auto
  have rec: "run_trials pp rs actual g teams eds n s1 = Inr s'"
    using Suc.prems(3) by (simp add: s1)
  have r2: "credit_inv teams (fst s')" "fst ` set (fst s1) \<subseteq> fst ` set (fst s')"
    using Suc.IH[OF r1(1) Suc.prems(2) rec] by auto
  have c: "teams \<noteq> [] \<longrightarrow> fst s' \<noteq> []"
  proof
    assume "teams \<noteq> []"
    with r1(3) have "fst ` set (fst s1) \<noteq> {}" by auto
    with r2(2) show "fst s' \<noteq> []" by auto
  qed
  have b: "fst ` set (fst s) \<subseteq> fst ` set (fst s')"
    using r1(2) r2(2) by (rule order_trans)
  show ?case using r2(1) b c by simp
qed

lemma sum_list_divide:
  fixes c :: rat
  shows "sum_list (map (\<lambda>t. f t / c) xs) = sum_list (map f xs) / c"
  by (induction xs) (simp_all add: add_divide_distrib)

lemma credit_inv_lookup:
  assumes "credit_inv teams wc"
  shows "t \<in> fst ` set wc \<longleftrightarrow> 0 < dict_get wc t 0"
    and "t \<in> fst ` set wc \<longleftrightarrow> dict_get wc t 0 \<noteq> 0"
proof -
  have pos: "\<And>v. map_of wc t = Some v \<Longrightarrow> 0 < v"
    using assms by (auto simp: credit_inv_def list_all_iff dest!: map_of_SomeD)
  have key: "t \<in> fst ` set wc \<longleftrightarrow> map_of wc t \<noteq> None"
    by (simp add: map_of_eq_None_iff)
  show "t \<in> fst ` set wc \<longleftrightarrow> 0 < dict_get wc t 0"
    unfolding key using pos by (auto simp: dict_get_def split: option.splits)
  show "t \<in> fst ` set wc \<longleftrightarrow> dict_get wc t 0 \<noteq> 0"
    unfolding key using pos by (auto simp: dict_get_def split: option.splits)
qed

lemma credited_teams:
  assumes "credit_inv teams wc"
  shows "set (filter (\<lambda>t. dict_get wc t 0 > 0) teams) = fst ` set wc"
proof -
  have "fst ` set wc \<subseteq> set teams" using assms by (simp add: credit_inv_def)
  then show ?thesis using credit_inv_lookup(1)[OF assms] by auto
qed

lemma values_by_key:
  assumes "distinct (map fst wc)"
  shows "map snd wc = map (\<lambda>t. dict_get wc t 0) (map fst wc)"
proof -
  have "snd x = dict_get wc (fst x) 0" if "x \<in> set wc" for x
  proof -
    have "map_of wc (fst x) = Some (snd x)"
      using assms that by (cases x) simp
    then show ?thesis by (simp add: dict_get_def)
  qed
  then show ?thesis by simp
qed

lemma credited_sum:
  assumes inv: "credit_inv teams wc" and dt: "distinct teams"
  shows "sum_list (map (\<lambda>t. dict_get wc t 0) (filter (\<lambda>t. dict_get wc t 0 > 0) teams))
         = sum_list (map snd wc)"
proof -
  let ?g = "\<lambda>t. dict_get wc t 0"
  have dk: "distinct (map fst wc)" using inv by (simp add: credit_inv_def)
  have "sum_list (map ?g (filter (\<lambda>t. ?g t > 0) teams)) = sum ?g (set (filter (\<lambda>t. ?g t > 0) teams))"
    using dt by (intro sum_list_distinct_conv_sum_set) simp
  also have "\<dots> = sum ?g (fst ` set wc)" by (simp only: credited_teams[OF inv])
  also have "\<dots> = sum ?g (set (map fst wc))" by simp
  also have "\<dots> = sum_list (map ?g (map fst wc))"
    using dk by (rule sum_list_distinct_conv_sum_set[symmetric])
  also have "\<dots> = sum_list (map snd wc)" by (simp only: values_by_key[OF dk])
  finally show ?thesis .
qed

lemma credit_inv_total_positive:
  assumes "credit_inv teams wc" and "wc \<noteq> []"
  shows "0 < sum_list (map snd wc)"
proof (rule sum_list_pos)
  show "map snd wc \<noteq> []" using assms(2) by simp
  fix x assume "x \<in> set (map snd wc)"
  then show "0 < x" using assms(1) by (auto simp: credit_inv_def list_all_iff)
qed

lemma normalise_credit_eq:
  assumes inv: "credit_inv teams wc" and ne: "wc \<noteq> []"
  shows "normalise_credit teams wc
         = Inr (map (\<lambda>t. (t, dict_get wc t 0 / sum_list (map snd wc)))
                  (filter (\<lambda>t. dict_get wc t 0 > 0) teams))"
proof -
  have "sum_list (map snd wc) \<noteq> 0" using credit_inv_total_positive[OF inv ne] by simp
  then show ?thesis
    unfolding normalise_credit_def Let_def
    by (intro collect_cong_Inr) (simp add: py_div_def)
qed

lemma collect_InrD: "collect xs = Inr vs \<Longrightarrow> xs = map Inr vs"
  by (induction xs arbitrary: vs) (auto split: sum.splits)

lemma event_data_ranked:
  assumes "event_data_of ev = Inr ed"
  shows "fst (snd ed) = rank_entries_by_seed ev"
  using assms by (auto simp: event_data_of_def Let_def split: sum.splits)

lemma ranked_teams_of_events:
  assumes "collect (map event_data_of evs) = Inr eds"
  shows "ranked_teams eds
         = (\<Union>ev \<in> set evs. (\<lambda>en. team (athlete en)) ` set (rank_entries_by_seed ev))"
  using assms
proof (induction evs arbitrary: eds)
  case Nil
  then show ?case by (simp add: ranked_teams_def)
next
  case (Cons ev evs)
  from Cons.prems obtain ed eds' where e: "event_data_of ev = Inr ed"
      "collect (map event_data_of evs) = Inr eds'" "eds = ed # eds'"
    by (auto split: sum.splits)
  have "ranked_teams (ed # eds')
        = (\<lambda>en. team (athlete en)) ` set (fst (snd ed)) \<union> ranked_teams eds'"
    by (simp add: ranked_teams_def)
  then show ?case using Cons.IH[OF e(2)] event_data_ranked[OF e(1)] e(3) by simp
qed

lemma set_rank_entries:
  "set (rank_entries_by_seed ev) = {en \<in> set (entries ev). name (athlete en) \<noteq> []}"
  by (simp add: rank_entries_by_seed_def)

text \<open>The sum of the returned probabilities (0 for a fault, which C4 excludes).\<close>

definition probability_sum :: "py_error + (string \<times> rat) list \<Rightarrow> rat" where
  "probability_sum r = (case r of Inl e \<Rightarrow> 0 | Inr m \<Rightarrow> sum_list (map snd m))"

text \<open>The snapshots and the random source of the examples below.\<close>

definition nameless_state :: MeetState where
  "nameless_state = \<lparr>events = [nameless_final], combined_events = []\<rparr>"

definition sprint_state :: MeetState where
  "sprint_state = \<lparr>events = [sprint_final], combined_events = []\<rparr>"

definition half_draws :: "nat \<Rightarrow> rat" where
  "half_draws k = 1 / 2"

text \<open>
  Claim C5 as stated fails when no team is in play: with an empty actual-score map
  and an upcoming final whose only entry has no athlete name, one iteration credits
  nobody; the returned map is empty and its probabilities sum to 0.
\<close>

theorem no_team_probabilities_sum_to_zero:
  "upcoming_with_entries nameless_state MEN = [nameless_final]
   \<and> compute_win_probability example_points [] nameless_state MEN 1 half_draws = Inr []
   \<and> probability_sum
         (compute_win_probability example_points [] nameless_state MEN 1 half_draws) = 0"
  by code_simp

text \<open>
  Claim C5, amended.  For every run of \<^verbatim>\<open>compute_win_probability\<close> with at least one
  iteration, at least one upcoming final with entries, and at least one team in play
  (a key of the actual-score map, or a named entrant of such a final), whatever the
  random source: the keys of the returned map are exactly the teams whose accumulated
  credit is not zero, each with its credit divided by the total credit, and the
  returned probabilities sum to 1 in exact rational arithmetic.
\<close>

theorem win_probabilities_sum_to_one:
  assumes n: "1 \<le> n_iterations"
    and up: "upcoming_with_entries st g \<noteq> []"
    and tm: "actual \<noteq> [] \<or> (\<exists>ev \<in> set (upcoming_with_entries st g).
                               \<exists>en \<in> set (entries ev). name (athlete en) \<noteq> [])"
  shows "\<exists>eds wc k res.
           collect (map event_data_of (upcoming_with_entries st g)) = Inr eds
           \<and> accumulated_credit pp actual g eds n_iterations rs = Inr (wc, k)
           \<and> compute_win_probability pp actual st g n_iterations rs = Inr res
           \<and> (\<forall>t. t \<in> fst ` set res \<longleftrightarrow> dict_get wc t 0 \<noteq> 0)
           \<and> (\<forall>t. map_of res t = (if dict_get wc t 0 \<noteq> 0
                                   then Some (dict_get wc t 0 / sum_list (map snd wc)) else None))
           \<and> probability_sum (compute_win_probability pp actual st g n_iterations rs) = 1"
proof -
  let ?up = "upcoming_with_entries st g"
  obtain eds where eds: "collect (map event_data_of ?up) = Inr eds"
  proof -
    have "\<exists>eds. collect (map event_data_of ?up) = Inr eds"
    proof (rule collect_total)
      fix x assume "x \<in> set (map event_data_of ?up)"
      then obtain ev' where "x = event_data_of ev'" by auto
      then show "\<exists>v. x = Inr v" using event_data_of_total[of ev'] by auto
    qed
    then show ?thesis using that by blast
  qed
  let ?teams = "simulation_teams actual eds"
  have rt: "ranked_teams eds \<subseteq> set ?teams" by (simp add: set_simulation_teams)
  have dt: "distinct ?teams" by (rule distinct_simulation_teams)
  have tne: "?teams \<noteq> []"
  proof (cases "actual = []")
    case False
    then have "fst ` set actual \<noteq> {}" by simp
    then have "set ?teams \<noteq> {}" unfolding set_simulation_teams by blast
    then show ?thesis by auto
  next
    case True
    with tm obtain ev en where e: "ev \<in> set ?up" "en \<in> set (entries ev)" "name (athlete en) \<noteq> []"
      by blast
    then have "en \<in> set (rank_entries_by_seed ev)" by (simp add: set_rank_entries)
    with e(1) have "team (athlete en) \<in> ranked_teams eds"
      unfolding ranked_teams_of_events[OF eds] by blast
    then have "team (athlete en) \<in> set ?teams" using rt by blast
    then show ?thesis by auto
  qed
  have inv0: "credit_inv ?teams (fst ([], 0 :: nat))" by (simp add: credit_inv_def)
  obtain s' where run: "run_trials pp rs actual g ?teams eds (nat n_iterations) ([], 0) = Inr s'"
    using run_trials_total[OF credit_inv_nonneg[OF inv0], of pp rs actual g ?teams eds "nat n_iterations"]
    by blast
  obtain wc k where s': "s' = (wc, k)" by (cases s')
  have acc: "accumulated_credit pp actual g eds n_iterations rs = Inr (wc, k)"
    using run s' by (simp add: accumulated_credit_def)
  have "0 < nat n_iterations" using n by simp
  with run_trials_inv[OF inv0 rt run] tne s'
  have inv: "credit_inv ?teams wc" and wne: "wc \<noteq> []" by auto
  let ?total = "sum_list (map snd wc)"
  let ?res = "map (\<lambda>t. (t, dict_get wc t 0 / ?total)) (filter (\<lambda>t. dict_get wc t 0 > 0) ?teams)"
  have res: "compute_win_probability pp actual st g n_iterations rs = Inr ?res"
    using up by (simp add: compute_win_probability_def eds acc normalise_credit_eq[OF inv wne])
  have tpos: "0 < ?total" by (rule credit_inv_total_positive[OF inv wne])
  have keys: "fst ` set ?res = fst ` set wc"
  proof -
    have "fst ` set ?res = set (filter (\<lambda>t. dict_get wc t 0 > 0) ?teams)" by force
    then show ?thesis by (simp only: credited_teams[OF inv])
  qed
  have k1: "\<forall>t. t \<in> fst ` set ?res \<longleftrightarrow> dict_get wc t 0 \<noteq> 0"
    unfolding keys using credit_inv_lookup(2)[OF inv] by blast
  have k2: "map_of ?res t = (if dict_get wc t 0 \<noteq> 0
                              then Some (dict_get wc t 0 / ?total) else None)" for t
  proof -
    have "map_of ?res t = (if t \<in> set (filter (\<lambda>t. dict_get wc t 0 > 0) ?teams)
                           then Some (dict_get wc t 0 / ?total) else None)"
      by (simp only: map_of_map_restrict restrict_map_def o_def)
    also have "\<dots> = (if dict_get wc t 0 \<noteq> 0 then Some (dict_get wc t 0 / ?total) else None)"
      unfolding credited_teams[OF inv] using credit_inv_lookup(2)[OF inv, of t] by simp
    finally show ?thesis .
  qed
  have "sum_list (map snd ?res) = sum_list (map (\<lambda>t. dict_get wc t 0 / ?total)
            (filter (\<lambda>t. dict_get wc t 0 > 0) ?teams))"
    by (simp add: o_def)
  also have "\<dots> = sum_list (map (\<lambda>t. dict_get wc t 0) (filter (\<lambda>t. dict_get wc t 0 > 0) ?teams)) / ?total"
    by (rule sum_list_divide)
  also have "\<dots> = ?total / ?total" by (simp only: credited_sum[OF inv dt])
  also have "\<dots> = 1" using tpos by simp
  finally have "probability_sum (compute_win_probability pp actual st g n_iterations rs) = 1"
    by (simp add: probability_sum_def res)
  with eds acc res k1 k2 show ?thesis by blast
qed

text \<open>
  One trial of the two-entrant sprint final with the draw 1/2 at each place: B is
  drawn first and wins the meet with 10 points to 8.
\<close>

theorem win_probabilities_sum_to_one_witness:
  "(1::int) \<le> 1
   \<and> upcoming_with_entries sprint_state MEN \<noteq> []
   \<and> (\<exists>ev \<in> set (upcoming_with_entries sprint_state MEN).
         \<exists>en \<in> set (entries ev). name (athlete en) \<noteq> [])
   \<and> compute_win_probability example_points [] sprint_state MEN 1 half_draws = Inr [(''B'', 1)]
   \<and> probability_sum
         (compute_win_probability example_points [] sprint_state MEN 1 half_draws) = 1"
proof -
  have up: "upcoming_with_entries sprint_state MEN = [sprint_final]" by code_simp
  have h1: "(1::int) \<le> 1" by simp
  have h2: "upcoming_with_entries sprint_state MEN \<noteq> []" by (simp add: up)
  have h3: "\<exists>ev \<in> set (upcoming_with_entries sprint_state MEN).
              \<exists>en \<in> set (entries ev). name (athlete en) \<noteq> []"
    by (simp add: up sprint_final_def)
  then have h3': "[] \<noteq> ([] :: scores) \<or> (\<exists>ev \<in> set (upcoming_with_entries sprint_state MEN).
              \<exists>en \<in> set (entries ev). name (athlete en) \<noteq> [])"
    by simp
  have r: "compute_win_probability example_points [] sprint_state MEN 1 half_draws
           = Inr [(''B'', 1)]"
    by code_simp
  from win_probabilities_sum_to_one [OF h1 h2 h3', of example_points half_draws]
  have "probability_sum
          (compute_win_probability example_points [] sprint_state MEN 1 half_draws) = 1"
    by blast
  with h1 h2 h3 r show ?thesis by blast
qed

section \<open>The three scenarios are ordered\<close>

lemma greedy_prefix_best:
  fixes g :: "int \<Rightarrow> int"
  assumes "sorted xs" and "distinct xs"
    and "\<And>p q. p \<in> set xs \<Longrightarrow> q \<in> set xs \<Longrightarrow> p \<le> q \<Longrightarrow> g q \<le> g p"
    and "\<And>p. p \<in> set xs \<Longrightarrow> 0 \<le> g p"
    and "S \<subseteq> set xs" and "card S \<le> k"
  shows "sum g S \<le> sum_list (map g (take k xs))"
  using assms
proof (induction xs arbitrary: S k)
  case Nil
  then show ?case by simp
next
  case (Cons x xs)
  have fin: "finite S" using Cons.prems(5) by (rule finite_subset) simp
  have nonneg_take: "0 \<le> sum_list (map g (take j xs))" for j
    using Cons.prems(4) by (intro sum_list_nonneg) (auto dest: in_set_takeD)
  have ih: "sum g S' \<le> sum_list (map g (take k' xs))"
    if "S' \<subseteq> set xs" "card S' \<le> k'" for S' k'
    using Cons.IH[of S' k'] Cons.prems(1-4) that by auto
  show ?case
  proof (cases k)
    case 0
    then have "S = {}" using Cons.prems(6) fin by simp
    then show ?thesis using 0 by simp
  next
    case (Suc k')
    show ?thesis
    proof (cases "S = {}")
      case True
      then show ?thesis using Suc nonneg_take[of k'] Cons.prems(4)[of x] by simp
    next
      case False
      define y where "y = (if x \<in> S then x else (SOME z. z \<in> S))"
      have yS: "y \<in> S" using False by (auto simp: y_def some_in_eq)
      have gy: "g y \<le> g x"
      proof (cases "x \<in> S")
        case True
        then show ?thesis by (simp add: y_def)
      next
        case nx: False
        then have "y \<in> set xs" using yS Cons.prems(5) by auto
        then have "x \<le> y" using Cons.prems(1) by auto
        then show ?thesis using Cons.prems(3)[of x y] yS Cons.prems(5) by auto
      qed
      have sub: "S - {y} \<subseteq> set xs"
      proof (cases "x \<in> S")
        case True
        then have "y = x" by (simp add: y_def)
        then show ?thesis using Cons.prems(5) by auto
      next
        case nx: False
        then show ?thesis using Cons.prems(5) by auto
      qed
      have card: "card (S - {y}) \<le> k'"
        using Cons.prems(6) Suc yS fin by simp
      have "sum g S = g y + sum g (S - {y})"
        using fin yS by (simp add: sum.remove)
      also have "\<dots> \<le> g x + sum_list (map g (take k' xs))"
        using gy ih[OF sub card] by simp
      finally show ?thesis using Suc by simp
    qed
  qed
qed

lemma prefix_sum_by_index:
  fixes g :: "int \<Rightarrow> int"
  shows "sum_list (map (\<lambda>i. if i < length av then g (av ! i) else 0) [0 ..< k])
         = sum_list (map g (take k av))"
proof (induction k)
  case 0
  show ?case by simp
next
  case (Suc k)
  show ?case
  proof (cases "k < length av")
    case True
    then show ?thesis using Suc by (simp add: take_Suc_conv_app_nth)
  next
    case False
    then show ?thesis using Suc by simp
  qed
qed

lemma sum_list_filter_zero:
  fixes g :: "int \<Rightarrow> int"
  assumes "\<And>x. \<not> Q x \<Longrightarrow> g x = 0"
  shows "sum_list (map g xs) = sum_list (map g (filter Q xs))"
  using assms by (induction xs) auto

text \<open>The identities of the ranked entries, and the projected place of an identity.\<close>

definition ranked_idents :: "MeetEvent \<Rightarrow> nat list" where
  "ranked_idents event = map fst (ranked_ids event)"

lemma distinct_ranked_idents: "distinct (ranked_idents event)"
proof -
  let ?xs = "filter (\<lambda>(ident, e). name (athlete e) \<noteq> []) (enumerate 0 (entries event))"
  have "distinct (map fst ?xs)" by (intro distinct_map_filter) (simp add: distinct_enumerate)
  then have "distinct ?xs \<and> inj_on fst (set ?xs)" by (simp add: distinct_map)
  then have "distinct (sort_key (\<lambda>(ident, e). seed_sort_key e event) ?xs)
             \<and> inj_on fst (set (sort_key (\<lambda>(ident, e). seed_sort_key e event) ?xs))"
    by simp
  then show ?thesis unfolding ranked_idents_def ranked_ids_def by (simp only: distinct_map)
qed

lemma ranked_ids_entry:
  assumes "(i, e) \<in> set (ranked_ids event)"
  shows "i < length (entries event) \<and> e = entries event ! i \<and> name (athlete e) \<noteq> []"
  using assms by (auto simp: ranked_ids_def in_set_enumerate_eq)

lemma named_entry_ranked:
  assumes "i < length (entries event)" and "name (athlete (entries event ! i)) \<noteq> []"
  shows "i \<in> set (ranked_idents event)"
proof -
  have "(i, entries event ! i) \<in> set (ranked_ids event)"
    using assms by (auto simp: ranked_ids_def in_set_enumerate_eq)
  then show ?thesis unfolding ranked_idents_def by force
qed

lemma rank_map_zip:
  "rank_map event
   = zip (ranked_idents event) (map (\<lambda>i. int i + 1) [0 ..< length (ranked_idents event)])"
proof (rule nth_equalityI)
  show "length (rank_map event)
        = length (zip (ranked_idents event) (map (\<lambda>i. int i + 1) [0 ..< length (ranked_idents event)]))"
    by (simp add: rank_map_def ranked_idents_def)
next
  fix j assume "j < length (rank_map event)"
  then have j: "j < length (ranked_ids event)" by (simp add: rank_map_def)
  then show "rank_map event ! j
        = zip (ranked_idents event) (map (\<lambda>i. int i + 1) [0 ..< length (ranked_idents event)]) ! j"
    by (simp add: rank_map_def ranked_idents_def nth_enumerate_eq split_beta)
qed

definition proj_place_of :: "MeetEvent \<Rightarrow> nat \<Rightarrow> int" where
  "proj_place_of event ident = dict_get (rank_map event) ident 9"

lemma place_unranked: "ident \<notin> set (ranked_idents event) \<Longrightarrow> proj_place_of event ident = 9"
proof -
  assume a: "ident \<notin> set (ranked_idents event)"
  have "map_of (rank_map event) ident = None"
    unfolding rank_map_zip using a by (simp add: map_of_zip_is_None)
  then show ?thesis by (simp add: proj_place_of_def dict_get_def)
qed

lemma place_ranked:
  assumes "j < length (ranked_idents event)"
  shows "proj_place_of event (ranked_idents event ! j) = int j + 1"
proof -
  have "map_of (rank_map event) (ranked_idents event ! j)
        = Some (map (\<lambda>i. int i + 1) [0 ..< length (ranked_idents event)] ! j)"
    unfolding rank_map_zip using assms distinct_ranked_idents
    by (intro map_of_zip_nth) simp_all
  then show ?thesis using assms by (simp add: proj_place_of_def dict_get_def)
qed

lemma place_positive: "1 \<le> proj_place_of event ident"
proof (cases "ident \<in> set (ranked_idents event)")
  case True
  then obtain j where "j < length (ranked_idents event)" "ranked_idents event ! j = ident"
    by (auto simp: in_set_conv_nth)
  then show ?thesis using place_ranked[of j event] by simp
next
  case False
  then show ?thesis by (simp add: place_unranked)
qed

lemma place_inj:
  assumes "a \<in> set (ranked_idents event)" and "b \<in> set (ranked_idents event)"
    and "proj_place_of event a = proj_place_of event b"
  shows "a = b"
proof -
  obtain i j where i: "i < length (ranked_idents event)" "ranked_idents event ! i = a"
      and j: "j < length (ranked_idents event)" "ranked_idents event ! j = b"
    using assms(1,2) by (auto simp: in_set_conv_nth)
  have "int i + 1 = int j + 1"
    using assms(3) place_ranked[OF i(1)] place_ranked[OF j(1)] i(2) j(2) by simp
  then show ?thesis using i(2) j(2) by simp
qed

lemma place_le_8_ranked:
  assumes "proj_place_of event ident \<le> 8"
  shows "ident \<in> set (ranked_idents event)"
proof (rule ccontr)
  assume "ident \<notin> set (ranked_idents event)"
  then have "proj_place_of event ident = 9" by (rule place_unranked)
  with assms show False by simp
qed

lemma valid_table_lookup:
  assumes "valid_table pp" and "1 \<le> p" and "p \<le> 8"
  shows "\<exists>v. map_of pp p = Some v \<and> (p, v) \<in> set pp \<and> 0 < v"
proof -
  have "p \<in> set (map fst pp)" using assms by (simp add: valid_table_def)
  then obtain v where v: "(p, v) \<in> set pp" by auto
  have "distinct (map fst pp)" using assms(1) by (simp add: valid_table_def)
  then have "map_of pp p = Some v" using v by simp
  moreover have "0 < v" using assms(1) v by (auto simp: valid_table_def list_all_iff)
  ultimately show ?thesis using v by blast
qed

lemma table_zero:
  assumes "valid_table pp" and "\<not> (1 \<le> p \<and> p \<le> 8)"
  shows "dict_get pp p 0 = 0"
proof -
  have "p \<notin> fst ` set pp" using assms by (auto simp: valid_table_def)
  then have "map_of pp p = None" by (simp add: map_of_eq_None_iff)
  then show ?thesis by (simp add: dict_get_def)
qed

lemma table_nonneg:
  assumes "valid_table pp"
  shows "0 \<le> dict_get pp p 0"
proof (cases "1 \<le> p \<and> p \<le> 8")
  case True
  then obtain v where "map_of pp p = Some v" "0 < v"
    using valid_table_lookup[OF assms, of p] by blast
  then show ?thesis by (simp add: dict_get_def)
next
  case False
  then show ?thesis using table_zero[OF assms] by simp
qed

lemma table_antitone:
  assumes vt: "valid_table pp" and "1 \<le> p" and "p \<le> q" and "q \<le> 8"
  shows "dict_get pp q 0 \<le> dict_get pp p 0"
proof (cases "p = q")
  case True
  then show ?thesis by simp
next
  case False
  obtain v where v: "map_of pp p = Some v" "(p, v) \<in> set pp"
    using valid_table_lookup[OF vt, of p] assms by auto
  obtain w where w: "map_of pp q = Some w" "(q, w) \<in> set pp"
    using valid_table_lookup[OF vt, of q] assms by auto
  have "list_all (\<lambda>(p, v). list_all (\<lambda>(q, w). p < q \<longrightarrow> w < v) pp) pp"
    using vt by (simp add: valid_table_def)
  then have "p < q \<longrightarrow> w < v" using v(2) w(2) by (fastforce simp: list_all_iff)
  then show ?thesis using False assms(3) v(1) w(1) by (simp add: dict_get_def)
qed

lemma sum_enumerate:
  fixes h :: "nat \<Rightarrow> int"
  shows "sum_list (map (\<lambda>p. h (fst p)) (enumerate 0 xs)) = sum_list (map h [0 ..< length xs])"
proof -
  have "map (\<lambda>p. h (fst p)) (enumerate 0 xs) = map h (map fst (enumerate 0 xs))"
    by (simp only: map_map o_def)
  then show ?thesis by (simp only: map_fst_enumerate) simp
qed

text \<open>
  The identities of the team's entries and the places left free by the other teams,
  as \<^verbatim>\<open>compute_team_scenarios\<close> computes them.
\<close>

definition team_idents :: "string \<Rightarrow> MeetEvent \<Rightarrow> nat list" where
  "team_idents tm event =
     map fst (filter (\<lambda>(ident, e). team (athlete e) = tm) (enumerate 0 (entries event)))"

definition available_places_of :: "string \<Rightarrow> MeetEvent \<Rightarrow> int list" where
  "available_places_of tm event =
     sort (filter (\<lambda>p. p \<notin> set (map (\<lambda>(ident, e). proj_place_of event ident)
                                  (filter (\<lambda>(ident, e). team (athlete e) \<noteq> tm) (ranked_ids event))))
             [1 .. 8])"

lemma event_scenarios_row:
  assumes "event_scenarios pp tm event = Some row"
  shows "scenario_c_pts row = 0"
    and "scenario_a_pts row
         = sum_list (map (\<lambda>ident. dict_get pp (proj_place_of event ident) 0) (team_idents tm event))"
    and "scenario_b_pts row
         = sum_list (map (\<lambda>p. dict_get pp p 0)
                       (take (length (team_idents tm event)) (available_places_of tm event)))"
proof -
  let ?T = "filter (\<lambda>(ident, e). team (athlete e) = tm) (enumerate 0 (entries event))"
  let ?av = "available_places_of tm event"
  have ne: "?T \<noteq> []" using assms by (auto simp: event_scenarios_def Let_def split: if_splits)
  have row: "row = \<lparr>row_event = event_name event,
       row_athletes = map (\<lambda>(ident, e).
                         (name (athlete e),
                          (case effective_seed e of None \<Rightarrow> ''N/A''
                           | Some m \<Rightarrow> if m = [] then ''N/A'' else m),
                          proj_place_of event ident, dict_get pp (proj_place_of event ident) 0)) ?T,
       scenario_a_pts = sum_list (map (\<lambda>(n, m, proj_place, pts). pts)
           (map (\<lambda>(ident, e).
                         (name (athlete e),
                          (case effective_seed e of None \<Rightarrow> ''N/A''
                           | Some m \<Rightarrow> if m = [] then ''N/A'' else m),
                          proj_place_of event ident, dict_get pp (proj_place_of event ident) 0)) ?T)),
       scenario_b_pts = sum_list (map (\<lambda>(i, entry). if i < length ?av then dict_get pp (?av ! i) 0 else 0)
                              (enumerate 0 ?T)),
       scenario_c_pts = 0\<rparr>"
    using assms ne
    unfolding event_scenarios_def Let_def available_places_of_def proj_place_of_def
    by (simp add: split_def)
  show "scenario_c_pts row = 0" by (simp add: row)
  have "scenario_a_pts row = sum_list (map (\<lambda>(ident, e). dict_get pp (proj_place_of event ident) 0) ?T)"
    by (simp add: row o_def split_def)
  also have "\<dots> = sum_list (map (\<lambda>ident. dict_get pp (proj_place_of event ident) 0) (map fst ?T))"
    by (simp add: o_def split_def)
  finally show "scenario_a_pts row
         = sum_list (map (\<lambda>ident. dict_get pp (proj_place_of event ident) 0) (team_idents tm event))"
    by (simp add: team_idents_def)
  have "scenario_b_pts row
        = sum_list (map (\<lambda>p. if fst p < length ?av then dict_get pp (?av ! fst p) 0 else 0)
                      (enumerate 0 ?T))"
    by (simp add: row split_def)
  also have "\<dots> = sum_list (map (\<lambda>i. if i < length ?av then dict_get pp (?av ! i) 0 else 0)
                      [0 ..< length ?T])"
    by (rule sum_enumerate)
  also have "\<dots> = sum_list (map (\<lambda>p. dict_get pp p 0) (take (length ?T) ?av))"
    by (rule prefix_sum_by_index)
  finally show "scenario_b_pts row
         = sum_list (map (\<lambda>p. dict_get pp p 0)
                       (take (length (team_idents tm event)) (available_places_of tm event)))"
    by (simp add: team_idents_def)
qed

lemma team_idents_entry:
  assumes "i \<in> set (team_idents tm event)"
  shows "i < length (entries event) \<and> team (athlete (entries event ! i)) = tm"
  using assms by (auto simp: team_idents_def in_set_enumerate_eq)

lemma distinct_team_idents: "distinct (team_idents tm event)"
  unfolding team_idents_def by (intro distinct_map_filter) (simp add: distinct_enumerate)

lemma set_available_places:
  "set (available_places_of tm event)
   = {p. 1 \<le> p \<and> p \<le> 8
         \<and> p \<notin> (\<lambda>(ident, e). proj_place_of event ident)
                 ` {x \<in> set (ranked_ids event). team (athlete (snd x)) \<noteq> tm}}"
  by (auto simp: available_places_of_def split_def)

lemma team_place_available:
  assumes i: "i \<in> set (team_idents tm event)" and le: "proj_place_of event i \<le> 8"
  shows "proj_place_of event i \<in> set (available_places_of tm event)"
proof -
  have ri: "i \<in> set (ranked_idents event)" using le by (rule place_le_8_ranked)
  have ti: "team (athlete (entries event ! i)) = tm" using team_idents_entry[OF i] by simp
  have differ: "proj_place_of event i \<noteq> proj_place_of event ident"
    if x: "(ident, e) \<in> set (ranked_ids event)" and o: "team (athlete e) \<noteq> tm" for ident e
  proof
    assume eq: "proj_place_of event i = proj_place_of event ident"
    have "ident \<in> set (ranked_idents event)" using x unfolding ranked_idents_def by force
    with ri have "i = ident" using eq by (rule place_inj)
    moreover have "e = entries event ! ident" using ranked_ids_entry[OF x] by simp
    ultimately show False using ti o by simp
  qed
  have "proj_place_of event i \<notin> (\<lambda>(ident, e). proj_place_of event ident)
                 ` {x \<in> set (ranked_ids event). team (athlete (snd x)) \<noteq> tm}"
  proof
    assume "proj_place_of event i \<in> (\<lambda>(ident, e). proj_place_of event ident)
                 ` {x \<in> set (ranked_ids event). team (athlete (snd x)) \<noteq> tm}"
    then obtain ident e where "(ident, e) \<in> set (ranked_ids event)" "team (athlete e) \<noteq> tm"
        "proj_place_of event i = proj_place_of event ident"
      by auto
    then show False using differ by blast
  qed
  then show ?thesis
    unfolding set_available_places using le place_positive[of event i] by simp
qed

lemma row_ordered:
  assumes vt: "valid_table pp" and row: "event_scenarios pp tm event = Some row"
  shows "0 \<le> scenario_a_pts row" and "scenario_a_pts row \<le> scenario_b_pts row"
proof -
  let ?g = "\<lambda>p. dict_get pp p 0"
  let ?pl = "proj_place_of event"
  let ?T = "team_idents tm event"
  let ?av = "available_places_of tm event"
  let ?I = "filter (\<lambda>i. ?pl i \<le> 8) ?T"
  let ?P = "map ?pl ?I"
  have a: "scenario_a_pts row = sum_list (map ?g (map ?pl ?T))"
    using event_scenarios_row(2)[OF row] by (simp add: o_def)
  show "0 \<le> scenario_a_pts row"
    unfolding a by (intro sum_list_nonneg) (auto simp: table_nonneg[OF vt])
  have b: "scenario_b_pts row = sum_list (map ?g (take (length ?T) ?av))"
    using event_scenarios_row(3)[OF row] .
  have "sum_list (map ?g (map ?pl ?T)) = sum_list (map ?g (filter (\<lambda>p. p \<le> 8) (map ?pl ?T)))"
    by (rule sum_list_filter_zero) (simp add: table_zero[OF vt])
  also have "filter (\<lambda>p. p \<le> 8) (map ?pl ?T) = ?P" by (simp add: filter_map o_def)
  finally have a': "scenario_a_pts row = sum_list (map ?g ?P)" using a by simp
  have dI: "distinct ?I" using distinct_team_idents by simp
  have inj: "inj_on ?pl (set ?I)"
  proof (rule inj_onI)
    fix x y assume "x \<in> set ?I" "y \<in> set ?I" and eq: "?pl x = ?pl y"
    then have "x \<in> set (ranked_idents event)" "y \<in> set (ranked_idents event)"
      by (auto intro: place_le_8_ranked)
    then show "x = y" using eq by (rule place_inj)
  qed
  have dP: "distinct ?P" using dI inj by (simp add: distinct_map)
  have sub: "set ?P \<subseteq> set ?av"
  proof
    fix p assume "p \<in> set ?P"
    then obtain i where "i \<in> set ?T" "?pl i \<le> 8" "p = ?pl i" by auto
    then show "p \<in> set ?av" using team_place_available[of i tm event] by simp
  qed
  have "length ?P \<le> length ?T" by simp
  then have card: "card (set ?P) \<le> length ?T" using distinct_card[OF dP] by simp
  have sorted: "sorted ?av" by (simp add: available_places_of_def)
  have dav: "distinct ?av" by (simp add: available_places_of_def)
  have range: "\<And>p. p \<in> set ?av \<Longrightarrow> 1 \<le> p \<and> p \<le> 8" by (simp add: set_available_places)
  have "sum ?g (set ?P) \<le> sum_list (map ?g (take (length ?T) ?av))"
  proof (rule greedy_prefix_best[OF sorted dav _ _ sub card])
    fix p q assume "p \<in> set ?av" "q \<in> set ?av" "p \<le> q"
    then show "?g q \<le> ?g p" using range[of p] range[of q] by (intro table_antitone[OF vt]) auto
  next
    fix p show "0 \<le> ?g p" by (rule table_nonneg[OF vt])
  qed
  moreover have "sum_list (map ?g ?P) = sum ?g (set ?P)"
    using dP by (rule sum_list_distinct_conv_sum_set)
  ultimately show "scenario_a_pts row \<le> scenario_b_pts row" using a' b by simp
qed

lemma scenarios_fold:
  fixes pp tm
  defines "step \<equiv> (\<lambda>event (a, b, c, rows).
                    case event_scenarios pp tm event of
                      None \<Rightarrow> (a, b, c, rows)
                    | Some row \<Rightarrow>
                        (a + scenario_a_pts row, b + scenario_b_pts row, c + scenario_c_pts row,
                         rows @ [row]))"
  assumes "fold step evs (a0, b0, c0, rows0) = (a, b, c, rows)"
  shows "c = c0 \<and> set rows \<subseteq> set rows0 \<union> {row. \<exists>ev \<in> set evs. event_scenarios pp tm ev = Some row}"
  using assms(2)
proof (induction evs arbitrary: a0 b0 c0 rows0)
  case Nil
  then show ?case by simp
next
  case (Cons ev evs)
  show ?case
  proof (cases "event_scenarios pp tm ev")
    case None
    then have "fold step evs (a0, b0, c0, rows0) = (a, b, c, rows)"
      using Cons.prems by (simp add: step_def)
    from Cons.IH[OF this] show ?thesis by auto
  next
    case (Some row)
    then have "fold step evs (a0 + scenario_a_pts row, b0 + scenario_b_pts row,
                 c0 + scenario_c_pts row, rows0 @ [row]) = (a, b, c, rows)"
      using Cons.prems by (simp add: step_def)
    from Cons.IH[OF this] event_scenarios_row(1)[OF Some] Some show ?thesis by auto
  qed
qed

text \<open>
  Claim C7.  For every table, team, actual-score map, snapshot and gender, the
  worst-case total returned by \<^verbatim>\<open>compute_team_scenarios\<close> is the team's current actual
  points and every breakdown row has worst-case points 0; when the table satisfies
  its contract (places 1 to 8, positive points, strictly decreasing), every row has
  best-case points at least its seeds-hold points, which are at least its worst-case
  points.
\<close>

theorem scenarios_ordered:
  "scenario_c (compute_team_scenarios pp tm actual st g)
     = actual_points (dict_get actual tm (new_TeamScore tm g))
   \<and> current (compute_team_scenarios pp tm actual st g)
     = actual_points (dict_get actual tm (new_TeamScore tm g))
   \<and> (\<forall>row \<in> set (breakdown (compute_team_scenarios pp tm actual st g)).
         scenario_c_pts row = 0
         \<and> (valid_table pp \<longrightarrow>
              scenario_c_pts row \<le> scenario_a_pts row
              \<and> scenario_a_pts row \<le> scenario_b_pts row))"
proof -
  let ?base = "actual_points (dict_get actual tm (new_TeamScore tm g))"
  let ?step = "(\<lambda>event (a, b, c, rows).
                    case event_scenarios pp tm event of
                      None \<Rightarrow> (a, b, c, rows)
                    | Some row \<Rightarrow>
                        (a + scenario_a_pts row, b + scenario_b_pts row, c + scenario_c_pts row,
                         rows @ [row]))"
  obtain a b c rows where f: "fold ?step (get_upcoming_finals st g) (?base, ?base, ?base, []) = (a, b, c, rows)"
    by (rule prod_cases4)
  have res: "compute_team_scenarios pp tm actual st g
        = \<lparr>scenario_team = tm, current = ?base, scenario_a = a, scenario_b = b,
          scenario_c = c, breakdown = rows\<rparr>"
    unfolding compute_team_scenarios_def Let_def f by simp
  have cr: "c = ?base \<and> set rows \<subseteq> set [] \<union> {row. \<exists>ev \<in> set (get_upcoming_finals st g). event_scenarios pp tm ev = Some row}"
    using f by (rule scenarios_fold)
  then have c: "c = ?base"
    and rows: "set rows \<subseteq> {row. \<exists>ev \<in> set (get_upcoming_finals st g). event_scenarios pp tm ev = Some row}"
    by simp_all
  have "scenario_c_pts row = 0
         \<and> (valid_table pp \<longrightarrow>
              scenario_c_pts row \<le> scenario_a_pts row
              \<and> scenario_a_pts row \<le> scenario_b_pts row)" if rin: "row \<in> set rows" for row
  proof -
    obtain ev where ev: "event_scenarios pp tm ev = Some row" using rows rin by blast
    have z: "scenario_c_pts row = 0" by (rule event_scenarios_row(1)[OF ev])
    show ?thesis using z row_ordered[OF _ ev] by simp
  qed
  then have all: "\<forall>row \<in> set rows. scenario_c_pts row = 0
         \<and> (valid_table pp \<longrightarrow>
              scenario_c_pts row \<le> scenario_a_pts row
              \<and> scenario_a_pts row \<le> scenario_b_pts row)"
    by blast
  have r1: "scenario_c (compute_team_scenarios pp tm actual st g) = ?base" by (simp add: res c)
  have r2: "current (compute_team_scenarios pp tm actual st g) = ?base" by (simp add: res)
  have r3: "breakdown (compute_team_scenarios pp tm actual st g) = rows" by (simp add: res)
  show ?thesis unfolding r1 r2 r3 using all by blast
qed

text \<open>
  The final of the specification's example (teams X, Y, X seeded 10.50, 10.60, 10.70)
  with one more slot of team X that has no athlete name yet: seeds hold gives X the
  places 1 and 3, the best case the places 1, 3 and 4.
\<close>

definition example_final :: MeetEvent where
  "example_final =
     \<lparr>event_name = ''Men 60m'', base_event_name = ''60m'', gender = MEN, round_type = FINAL,
      status = SCHEDULED,
      entries =
        [\<lparr>athlete = \<lparr>name = ''a'', team = ''X'', final_place = None\<rparr>,
          effective_seed = Some ''10.50''\<rparr>,
         \<lparr>athlete = \<lparr>name = ''b'', team = ''Y'', final_place = None\<rparr>,
          effective_seed = Some ''10.60''\<rparr>,
         \<lparr>athlete = \<lparr>name = ''c'', team = ''X'', final_place = None\<rparr>,
          effective_seed = Some ''10.70''\<rparr>,
         \<lparr>athlete = \<lparr>name = [], team = ''X'', final_place = None\<rparr>,
          effective_seed = None\<rparr>]\<rparr>"

definition example_state :: MeetState where
  "example_state = \<lparr>events = [example_final], combined_events = []\<rparr>"

theorem scenarios_ordered_witness:
  "valid_table example_points
   \<and> map (\<lambda>row. (scenario_a_pts row, scenario_b_pts row, scenario_c_pts row))
         (breakdown (compute_team_scenarios example_points ''X'' [] example_state MEN))
       = [(16, 21, 0)]
   \<and> scenario_c (compute_team_scenarios example_points ''X'' [] example_state MEN) = 0"
proof -
  have vt: "valid_table example_points" by code_simp
  have rows: "map (\<lambda>row. (scenario_a_pts row, scenario_b_pts row, scenario_c_pts row))
         (breakdown (compute_team_scenarios example_points ''X'' [] example_state MEN))
       = [(16, 21, 0)]"
    by code_simp
  have base: "actual_points (dict_get [] ''X'' (new_TeamScore ''X'' MEN)) = 0"
    by (simp add: dict_get_def new_TeamScore_def)
  show ?thesis
    using vt rows base scenarios_ordered [of example_points "''X''" "[]" example_state MEN]
    by simp
qed

section \<open>The projection is not rounded; the report stores its integer part\<close>

subsection \<open>The loop adds the block averages\<close>












subsection \<open>The rows of the report\<close>










subsection \<open>A final with a tie on places 3 and 4\<close>








subsection \<open>The claim\<close>



end
